theory Spec2Isabelle
  imports Main "HOL-Library.Word"
begin

unbundle bit_operations_syntax

section \<open>Data model and operations\<close>

text \<open>
  The development embeds the output pipeline of the libretro front end of Gambatte
  (\<^verbatim>\<open>libgambatte/libretro/libretro.cpp\<close>) and the fake real-time clock
  (\<^verbatim>\<open>libgambatte/src/mem/fake_rtc.cpp\<close>). The build modelled is the one with
  \<^verbatim>\<open>SF2000\<close> defined (the variable-speed code exists only there) and
  \<^verbatim>\<open>VIDEO_RGB565\<close> pixels; \<^verbatim>\<open>size_t\<close> and \<^verbatim>\<open>unsigned\<close> are 32-bit words, the two pacing
  counters are \<^verbatim>\<open>uint64_t\<close>. External collaborators (emulation core, resampler, host
  callbacks) are represented by what they return and by the sequence of calls made to them.
\<close>

subsection \<open>Fake real-time clock (src/mem/fake\_rtc.h, fake\_rtc.cpp)\<close>

text \<open>
  \<^verbatim>\<open>fake_rtc_state_type\<close>: the two \<^verbatim>\<open>uint32_t\<close> fields are 32-bit words, so that
  \<^verbatim>\<open>+=\<close> and \<^verbatim>\<open>-=\<close> wrap as they do in C++.
\<close>

record fake_rtc_state_type =
  total_minutes :: "32 word"
  last_real_time :: "32 word"
  enabled :: bool
  needs_save :: bool

text \<open>
  \<^verbatim>\<open>FakeRtc::bump_time(int bump_minutes)\<close>. The \<^verbatim>\<open>int\<close> argument is a 32-bit word read
  as two's complement (\<open>sint\<close>); \<^verbatim>\<open>static_cast<uint32_t>\<close> keeps the bit pattern, and
  \<^verbatim>\<open>-bump_minutes\<close> is the two's complement negation (for \<^verbatim>\<open>INT_MIN\<close> the C++ expression
  overflows; every supported compiler yields the bit pattern \<open>2^31\<close>, which is what the
  word negation gives).
\<close>

definition bump_time :: "fake_rtc_state_type \<Rightarrow> 32 word \<Rightarrow> fake_rtc_state_type" where
  "bump_time st bump_minutes =
     (if \<not> enabled st then st
      else
        let st1 =
          (if 0 < sint bump_minutes
           then st\<lparr>total_minutes := total_minutes st + bump_minutes\<rparr>
           else if sint bump_minutes < 0
           then (let abs_bump = - bump_minutes
                 in if abs_bump > total_minutes st
                    then st\<lparr>total_minutes := 0\<rparr>
                    else st\<lparr>total_minutes := total_minutes st - abs_bump\<rparr>)
           else st)
        in st1\<lparr>needs_save := True\<rparr>)"

subsection \<open>Audio output buffer (libretro.cpp, lines 319--440)\<close>

text \<open>
  The four globals \<^verbatim>\<open>audio_out_buffer\<close>, \<^verbatim>\<open>audio_out_buffer_size\<close>,
  \<^verbatim>\<open>audio_out_buffer_pos\<close> and \<^verbatim>\<open>audio_batch_frames_max\<close> form one record. The buffer
  is the list of its \<^verbatim>\<open>int16_t\<close> cells (the empty list for the \<^verbatim>\<open>NULL\<close> pointer); size and
  cursor count cells, \<^verbatim>\<open>num_samples\<close> arguments count stereo frames (two cells each).
  \<^verbatim>\<open><<\<close> and \<^verbatim>\<open>>>\<close> are \<open>push_bit\<close> and \<open>drop_bit\<close> on 32-bit words and wrap as in C.
\<close>

type_synonym size_t = "32 word"

type_synonym int16_t = "16 word"

record audio_out =
  audio_out_buffer :: "int16_t list"
  audio_out_buffer_size :: size_t
  audio_out_buffer_pos :: size_t
  audio_batch_frames_max :: size_t

text \<open>
  Memory. A block returned by \<^verbatim>\<open>malloc\<close> is the list of its cells; a request of \<open>bytes\<close>
  bytes gives \<open>bytes div 2\<close> cells of \<^verbatim>\<open>int16_t\<close>, and the byte count
  \<^verbatim>\<open>n * sizeof(int16_t)\<close> is formed in \<^verbatim>\<open>size_t\<close>, so it wraps at \<open>2^32\<close> as in the
  source. \<^verbatim>\<open>malloc\<close> is assumed to succeed (the source does not test its result); the
  block holds unspecified values, supplied by \<open>fresh\<close>.

  \<^verbatim>\<open>memcpy(dst + off, src, bytes)\<close> copies \<open>bytes div 2\<close> cells. A copy that would
  write past the end of the destination block, or read past the end of the source, has no
  defined behaviour in C: it is the error value \<open>None\<close>, which every caller passes on.
  \<open>blipper_read_at\<close> stands for the two \<^verbatim>\<open>blipper_read\<close> calls with stride 2, which store
  \<open>num_samples\<close> left and \<open>num_samples\<close> right values on alternating cells; \<open>resampled\<close>
  is the interleaved sequence of the values they produce.
\<close>

definition sizeof_int16_t :: size_t where
  "sizeof_int16_t = 2"

definition malloc_int16 :: "(nat \<Rightarrow> int16_t) \<Rightarrow> size_t \<Rightarrow> int16_t list" where
  "malloc_int16 fresh bytes = map fresh [0..<unat bytes div 2]"

definition memcpy_at :: "int16_t list \<Rightarrow> nat \<Rightarrow> int16_t list \<Rightarrow> size_t \<Rightarrow> int16_t list option" where
  "memcpy_at dst off src bytes =
     (let n = unat bytes div 2
      in if off + n \<le> length dst \<and> n \<le> length src
         then Some (take off dst @ take n src @ drop (off + n) dst)
         else None)"

definition blipper_read_at :: "int16_t list \<Rightarrow> nat \<Rightarrow> int16_t list \<Rightarrow> size_t \<Rightarrow> int16_t list option" where
  "blipper_read_at dst off resampled num_samples =
     (let n = 2 * unat num_samples
      in if off + n \<le> length dst \<and> n \<le> length resampled
         then Some (take off dst @ take n resampled @ drop (off + n) dst)
         else None)"

text \<open>The static initialisers of the four globals (lines 319--322).\<close>

definition audio_out_static :: audio_out where
  "audio_out_static =
     \<lparr>audio_out_buffer = [], audio_out_buffer_size = 0, audio_out_buffer_pos = 0,
      audio_batch_frames_max = push_bit 16 1\<rparr>"

text \<open>
  \<^verbatim>\<open>audio_out_buffer_init\<close>. The source derives \<^verbatim>\<open>(size_t)samples_per_frame\<close> from the
  sample rate in floating point; the model takes that truncated value as a parameter.
\<close>

definition audio_out_buffer_init :: "(nat \<Rightarrow> int16_t) \<Rightarrow> size_t \<Rightarrow> audio_out" where
  "audio_out_buffer_init fresh samples_per_frame =
     (let buffer_size = push_bit 1 (samples_per_frame + 1);
          buffer_size = push_bit 1 buffer_size
      in \<lparr>audio_out_buffer = malloc_int16 fresh (buffer_size * sizeof_int16_t),
          audio_out_buffer_size = buffer_size,
          audio_out_buffer_pos = 0,
          audio_batch_frames_max = push_bit 16 1\<rparr>)"

definition audio_out_buffer_deinit :: "audio_out \<Rightarrow> audio_out" where
  "audio_out_buffer_deinit st =
     \<lparr>audio_out_buffer = [], audio_out_buffer_size = 0, audio_out_buffer_pos = 0,
      audio_batch_frames_max = push_bit 16 1\<rparr>"

text \<open>
  \<^verbatim>\<open>audio_out_buffer_resize\<close> (lines 354--376): when fewer than \<open>num_samples\<close> frames are
  free, a block of \<open>1.5\<close> times the needed size is allocated, the first
  \<^verbatim>\<open>audio_out_buffer_pos\<close> cells of the old block are copied into it, and it replaces the
  old block.
\<close>

definition audio_out_buffer_resize :: "(nat \<Rightarrow> int16_t) \<Rightarrow> size_t \<Rightarrow> audio_out \<Rightarrow> audio_out option" where
  "audio_out_buffer_resize fresh num_samples st =
     (let buffer_capacity = drop_bit 1 (audio_out_buffer_size st - audio_out_buffer_pos st)
      in if buffer_capacity < num_samples
         then
           let tmp_buffer_size = audio_out_buffer_size st + push_bit 1 (num_samples - buffer_capacity);
               tmp_buffer_size = push_bit 1 tmp_buffer_size - drop_bit 1 tmp_buffer_size;
               tmp_buffer = malloc_int16 fresh (tmp_buffer_size * sizeof_int16_t)
           in case memcpy_at tmp_buffer 0 (audio_out_buffer st)
                     (audio_out_buffer_pos st * sizeof_int16_t) of
                None \<Rightarrow> None
              | Some tmp_buffer \<Rightarrow>
                  Some (st\<lparr>audio_out_buffer := tmp_buffer, audio_out_buffer_size := tmp_buffer_size\<rparr>)
         else Some st)"

text \<open>
  \<^verbatim>\<open>audio_out_buffer_write\<close> (lines 378--386) copies \<^verbatim>\<open>(num_samples << 1) * sizeof(int16_t)\<close>
  bytes from \<open>samples\<close> to the cursor and advances the cursor.
  \<^verbatim>\<open>audio_out_buffer_read_blipper\<close> (lines 388--399) does the same with the output of the
  resampler.
\<close>

definition audio_out_buffer_write :: "(nat \<Rightarrow> int16_t) \<Rightarrow> int16_t list \<Rightarrow> size_t \<Rightarrow> audio_out \<Rightarrow> audio_out option" where
  "audio_out_buffer_write fresh samples num_samples st =
     (case audio_out_buffer_resize fresh num_samples st of
        None \<Rightarrow> None
      | Some st1 \<Rightarrow>
          (case memcpy_at (audio_out_buffer st1) (unat (audio_out_buffer_pos st1)) samples
                  (push_bit 1 num_samples * sizeof_int16_t) of
             None \<Rightarrow> None
           | Some buffer \<Rightarrow>
               Some (st1\<lparr>audio_out_buffer := buffer,
                         audio_out_buffer_pos := audio_out_buffer_pos st1 + push_bit 1 num_samples\<rparr>)))"

definition audio_out_buffer_read_blipper :: "(nat \<Rightarrow> int16_t) \<Rightarrow> int16_t list \<Rightarrow> size_t \<Rightarrow> audio_out \<Rightarrow> audio_out option" where
  "audio_out_buffer_read_blipper fresh resampled num_samples st =
     (case audio_out_buffer_resize fresh num_samples st of
        None \<Rightarrow> None
      | Some st1 \<Rightarrow>
          (case blipper_read_at (audio_out_buffer st1) (unat (audio_out_buffer_pos st1)) resampled
                  num_samples of
             None \<Rightarrow> None
           | Some buffer \<Rightarrow>
               Some (st1\<lparr>audio_out_buffer := buffer,
                         audio_out_buffer_pos := audio_out_buffer_pos st1 + push_bit 1 num_samples\<rparr>)))"

text \<open>
  \<^verbatim>\<open>audio_upload_samples\<close> (lines 401--440). The host callback \<^verbatim>\<open>audio_batch_cb\<close> is a
  state machine of the host: from its state, the block of cells offered and the number of
  frames offered it returns the number of frames it accepted and its next state. The local
  variables of the loop form a record; \<open>offered\<close> and \<open>accepted\<close> log the blocks handed to
  the callback and its return values. One pass through the body of the \<^verbatim>\<open>while\<close> loop is
  \<open>upload_loop_step\<close>. The loop may run forever (it does when the ceiling is 0), so it is a
  partial function and \<open>None\<close> stands for not returning.

  \<open>muted\<close> is the value of the early-exit test
  \<^verbatim>\<open>(sf2000_fastforward_state > 0 || sf2000_slowmotion_state > 0) && !fast_forward_audio_enabled\<close>.
\<close>

record 'h upload_loop_state =
  num_samples :: size_t
  audio_out_buffer_ptr :: size_t
  batch_frames_max :: size_t
  host :: 'h
  offered :: "int16_t list list"
  accepted :: "size_t list"

definition samples_to_write :: "'h upload_loop_state \<Rightarrow> size_t" where
  "samples_to_write d =
     (if num_samples d > batch_frames_max d then batch_frames_max d else num_samples d)"

definition upload_loop_step ::
  "('h \<Rightarrow> int16_t list \<Rightarrow> size_t \<Rightarrow> size_t \<times> 'h) \<Rightarrow> int16_t list \<Rightarrow>
   'h upload_loop_state \<Rightarrow> 'h upload_loop_state" where
  "upload_loop_step audio_batch_cb buf d =
     (let block = take (2 * unat (samples_to_write d)) (drop (unat (audio_out_buffer_ptr d)) buf);
          r = audio_batch_cb (host d) block (samples_to_write d);
          samples_written = fst r
      in \<lparr>num_samples = num_samples d - samples_to_write d,
          audio_out_buffer_ptr = audio_out_buffer_ptr d + push_bit 1 (samples_to_write d),
          batch_frames_max =
            (if samples_written < samples_to_write d \<and> samples_written > 0
             then samples_written else batch_frames_max d),
          host = snd r,
          offered = offered d @ [block],
          accepted = accepted d @ [samples_written]\<rparr>)"

partial_function (option) upload_loop ::
  "('h \<Rightarrow> int16_t list \<Rightarrow> size_t \<Rightarrow> size_t \<times> 'h) \<Rightarrow> int16_t list \<Rightarrow>
   'h upload_loop_state \<Rightarrow> 'h upload_loop_state option" where
  "upload_loop audio_batch_cb buf d =
     (if num_samples d > 0
      then upload_loop audio_batch_cb buf (upload_loop_step audio_batch_cb buf d)
      else Some d)"

declare upload_loop.simps [code]

definition audio_upload_samples ::
  "('h \<Rightarrow> int16_t list \<Rightarrow> size_t \<Rightarrow> size_t \<times> 'h) \<Rightarrow> bool \<Rightarrow> audio_out \<Rightarrow> 'h \<Rightarrow>
   (audio_out \<times> 'h upload_loop_state) option" where
  "audio_upload_samples audio_batch_cb muted st h =
     (let d0 = \<lparr>num_samples = drop_bit 1 (audio_out_buffer_pos st),
                audio_out_buffer_ptr = 0,
                batch_frames_max = audio_batch_frames_max st,
                host = h, offered = [], accepted = []\<rparr>
      in if muted then Some (st\<lparr>audio_out_buffer_pos := 0\<rparr>, d0)
         else case upload_loop audio_batch_cb (audio_out_buffer st) d0 of
                None \<Rightarrow> None
              | Some d \<Rightarrow> Some (st\<lparr>audio_out_buffer_pos := 0,
                                   audio_batch_frames_max := batch_frames_max d\<rparr>, d))"

text \<open>
  What the host sink has taken after a drain: of every block offered, the frames it reported
  as accepted.
\<close>

definition delivered :: "'h upload_loop_state \<Rightarrow> int16_t list" where
  "delivered d = concat (map2 (\<lambda>block w. take (2 * unat w) block) (offered d) (accepted d))"

text \<open>
  The representation invariant of the buffer: the size field is the length of the block, and
  the cursor lies inside it.
\<close>

definition audio_out_inv :: "audio_out \<Rightarrow> bool" where
  "audio_out_inv st \<longleftrightarrow>
     length (audio_out_buffer st) = unat (audio_out_buffer_size st) \<and>
     audio_out_buffer_pos st \<le> audio_out_buffer_size st"

text \<open>
  A sequence of \<^verbatim>\<open>audio_out_buffer_write\<close> calls, each with its sample block and frame
  count; it stops at the first call that leaves the block.
\<close>

fun audio_out_buffer_writes ::
  "(nat \<Rightarrow> int16_t) \<Rightarrow> (int16_t list \<times> size_t) list \<Rightarrow> audio_out \<Rightarrow> audio_out option" where
  "audio_out_buffer_writes fresh [] st = Some st"
| "audio_out_buffer_writes fresh ((samples, n) # ws) st =
     (case audio_out_buffer_write fresh samples n st of
        None \<Rightarrow> None
      | Some st1 \<Rightarrow> audio_out_buffer_writes fresh ws st1)"

text \<open>
  The states of the four globals that the program can reach: every function that assigns any
  of them is a rule (the host callback is fixed for a session).
\<close>

inductive audio_reachable ::
  "('h \<Rightarrow> int16_t list \<Rightarrow> size_t \<Rightarrow> size_t \<times> 'h) \<Rightarrow> audio_out \<Rightarrow> bool"
  for audio_batch_cb :: "'h \<Rightarrow> int16_t list \<Rightarrow> size_t \<Rightarrow> size_t \<times> 'h" where
  reach_static: "audio_reachable audio_batch_cb audio_out_static"
| reach_init: "audio_reachable audio_batch_cb st \<Longrightarrow>
     audio_reachable audio_batch_cb (audio_out_buffer_init fresh samples_per_frame)"
| reach_deinit: "audio_reachable audio_batch_cb st \<Longrightarrow>
     audio_reachable audio_batch_cb (audio_out_buffer_deinit st)"
| reach_write: "audio_reachable audio_batch_cb st \<Longrightarrow>
     audio_out_buffer_write fresh samples n st = Some st' \<Longrightarrow>
     audio_reachable audio_batch_cb st'"
| reach_read_blipper: "audio_reachable audio_batch_cb st \<Longrightarrow>
     audio_out_buffer_read_blipper fresh resampled n st = Some st' \<Longrightarrow>
     audio_reachable audio_batch_cb st'"
| reach_upload: "audio_reachable audio_batch_cb st \<Longrightarrow>
     audio_upload_samples audio_batch_cb muted st h = Some (st', d) \<Longrightarrow>
     audio_reachable audio_batch_cb st'"

subsection \<open>Input state and speed control (libretro.cpp, lines 1762--1990)\<close>

text \<open>
  \<^verbatim>\<open>update_input_state\<close> asks the host for the joypad either as one bit mask
  (\<^verbatim>\<open>ret & (1 << id)\<close>) or button by button (\<^verbatim>\<open>input_state_cb(0, RETRO_DEVICE_JOYPAD, 0, id)\<close>).
  Both branches perform the same steps on the truth value obtained for a button id, so the
  host's answer for one tick is a predicate on the ids \<^verbatim>\<open>RETRO_DEVICE_ID_JOYPAD_*\<close> that the
  function uses. The bit values of \<^verbatim>\<open>gambatte::InputGetter::Button\<close> are declared in a header
  outside the sources at hand and are a parameter \<open>gb\<close>; \<open>gambatte_InputGetter\<close> gives the
  values of upstream Gambatte (one bit each, \<open>0x01\<close> to \<open>0x80\<close>) for use in examples.
  The internal palette switching at the end of the function touches only palette variables
  and is left out.
\<close>

datatype joypad_id =
  JOYPAD_A | JOYPAD_B | JOYPAD_SELECT | JOYPAD_START | JOYPAD_RIGHT | JOYPAD_LEFT
  | JOYPAD_UP | JOYPAD_DOWN | JOYPAD_X | JOYPAD_Y | JOYPAD_L | JOYPAD_R

datatype gb_button = A | B | SELECT | START | RIGHT | LEFT | UP | DOWN

type_synonym joypad = "joypad_id \<Rightarrow> bool"

type_synonym InputGetter = "gb_button \<Rightarrow> 32 word"

definition btn_map :: "(joypad_id \<times> gb_button) list" where
  "btn_map =
     [(JOYPAD_A, A), (JOYPAD_B, B), (JOYPAD_SELECT, SELECT), (JOYPAD_START, START),
      (JOYPAD_RIGHT, RIGHT), (JOYPAD_LEFT, LEFT), (JOYPAD_UP, UP), (JOYPAD_DOWN, DOWN)]"

definition gambatte_InputGetter :: InputGetter where
  "gambatte_InputGetter b =
     (case b of A \<Rightarrow> 0x01 | B \<Rightarrow> 0x02 | SELECT \<Rightarrow> 0x04 | START \<Rightarrow> 0x08
              | RIGHT \<Rightarrow> 0x10 | LEFT \<Rightarrow> 0x20 | UP \<Rightarrow> 0x40 | DOWN \<Rightarrow> 0x80)"

text \<open>
  What the host video sink and the audio path receive is recorded as a sequence of calls:
  \<^verbatim>\<open>video_cb(frame, width, height, pitch)\<close> with \<open>frame\<close> either \<^verbatim>\<open>NULL\<close> or
  \<^verbatim>\<open>video_buf\<close>, and the calls into the resampler and the output buffer
  (\<^verbatim>\<open>CC_renderaudio\<close>; \<^verbatim>\<open>blipper_renderaudio\<close>; the read of the blipper output that is
  guarded by \<^verbatim>\<open>read_avail >= (BLIP_BUFFER_SIZE >> 1)\<close>; the unguarded read at the end of a
  pass; \<^verbatim>\<open>audio_upload_samples\<close>). The resampler state and the output buffer change only
  through these calls.
\<close>

datatype frame_ref = NULL_frame | Video_buf

datatype video_call = Video_refresh frame_ref nat nat nat

datatype audio_event =
  CC_renderaudio "32 word"
  | Blipper_renderaudio "32 word"
  | Blipper_read_if_half_full
  | Blipper_read_all
  | Audio_upload_samples

text \<open>
  Core options that the modelled functions read (set by \<^verbatim>\<open>check_variables\<close>), and the
  file-level and function-level static variables they update. \<open>core_script\<close> is what the
  emulation core will answer to the coming \<^verbatim>\<open>GB::runFor\<close> calls: the return value
  (\<open>-1\<close> when no video frame was completed) and the value left in \<^verbatim>\<open>samples\<close>.
  \<open>runfor_log\<close> records the frame buffer argument of every \<^verbatim>\<open>GB::runFor\<close> call made,
  \<open>frames_completed\<close> counts the calls that returned a completed frame, and
  \<open>av_info_updates\<close> counts the \<^verbatim>\<open>RETRO_ENVIRONMENT_SET_SYSTEM_AV_INFO\<close> notifications.
\<close>

record config =
  up_down_allowed :: bool
  turbo_period :: "32 word"
  turbo_pulse_width :: "32 word"
  fast_forward_audio_enabled :: bool
  use_cc_resampler :: bool

record globals =
  sf2000_fastforward_state :: "32 word"
  sf2000_select_a_prev :: bool
  sf2000_slowmotion_state :: "32 word"
  sf2000_select_b_prev :: bool
  sf2000_frame_counter :: "32 word"
  sf2000_slowmotion_frame_counter :: "32 word"
  sf2000_splash_shown :: bool
  sf2000_splash_timer :: "32 word"
  turbo_a_counter :: "32 word"
  turbo_b_counter :: "32 word"
  libretro_input_state :: "32 word"
  samples_count :: "64 word"
  frames_count :: "64 word"
  av_info_updates :: nat
  video_out :: "video_call list"
  audio_events :: "audio_event list"
  core_script :: "(int \<times> 32 word) list"
  runfor_log :: "frame_ref list"
  frames_completed :: nat

text \<open>
  Constants of \<^verbatim>\<open>libretro.cpp\<close>. \<^verbatim>\<open>sizeof(gambatte::video_pixel_t)\<close> is 2 for RGB565.
\<close>

definition SOUND_SAMPLES_PER_FRAME :: "64 word" where "SOUND_SAMPLES_PER_FRAME = 35112"

definition SOUND_SAMPLES_PER_RUN :: "32 word" where "SOUND_SAMPLES_PER_RUN = 2064"

definition SF2000_SPLASH_DURATION :: "32 word" where "SF2000_SPLASH_DURATION = 180"

definition VIDEO_WIDTH :: nat where "VIDEO_WIDTH = 160"

definition VIDEO_HEIGHT :: nat where "VIDEO_HEIGHT = 144"

definition VIDEO_PITCH :: nat where "VIDEO_PITCH = 256"

definition sizeof_video_pixel_t :: nat where "sizeof_video_pixel_t = 2"

text \<open>
  \<^verbatim>\<open>set_fastforward_override\<close> (SF2000 variant, lines 1638--1647) logs and resets
  \<^verbatim>\<open>sf2000_frame_counter\<close>. \<open>poll_buttons\<close> is the loop over \<^verbatim>\<open>btn_map\<close>.
  \<open>select_a_chord\<close> and \<open>select_b_chord\<close> are the two edge-detected chords (lines
  1794--1834 and 1854--1894), \<open>clear_opposing\<close> one of the two nested tests of lines
  1910--1919, \<open>turbo_step\<close> the handling of one turbo button (lines 1933--1955).
\<close>

definition set_fastforward_override :: "32 word \<Rightarrow> globals \<Rightarrow> globals" where
  "set_fastforward_override speed_state g = g\<lparr>sf2000_frame_counter := 0\<rparr>"

definition poll_buttons :: "InputGetter \<Rightarrow> joypad \<Rightarrow> 32 word" where
  "poll_buttons gb pad = foldl (\<lambda>res (snes, b). res OR (if pad snes then gb b else 0)) 0 btn_map"

definition select_a_chord :: "joypad \<Rightarrow> globals \<Rightarrow> globals" where
  "select_a_chord pad g =
     (let select_pressed = pad JOYPAD_SELECT;
          a_pressed = pad JOYPAD_A;
          sf2000_select_a_current = (select_pressed \<and> a_pressed);
          g1 = (if sf2000_select_a_current \<and> \<not> sf2000_select_a_prev g
                then
                  let g2 = g\<lparr>sf2000_slowmotion_state := 0, sf2000_slowmotion_frame_counter := 0\<rparr>;
                      g3 = g2\<lparr>sf2000_fastforward_state := (sf2000_fastforward_state g2 + 1) mod 3\<rparr>;
                      g4 = set_fastforward_override (sf2000_fastforward_state g3) g3
                  in g4\<lparr>av_info_updates := av_info_updates g4 + 1\<rparr>
                else g)
      in g1\<lparr>sf2000_select_a_prev := sf2000_select_a_current\<rparr>)"

definition select_b_chord :: "joypad \<Rightarrow> globals \<Rightarrow> globals" where
  "select_b_chord pad g =
     (let select_pressed = pad JOYPAD_SELECT;
          b_pressed = pad JOYPAD_B;
          sf2000_select_b_current = (select_pressed \<and> b_pressed);
          g1 = (if sf2000_select_b_current \<and> \<not> sf2000_select_b_prev g
                then
                  let g2 = g\<lparr>sf2000_fastforward_state := 0\<rparr>;
                      g3 = set_fastforward_override 0 g2;
                      g4 = g3\<lparr>sf2000_slowmotion_state := (sf2000_slowmotion_state g3 + 1) mod 3\<rparr>
                  in g4\<lparr>sf2000_slowmotion_frame_counter := 0\<rparr>
                else g)
      in g1\<lparr>sf2000_select_b_prev := sf2000_select_b_current\<rparr>)"

definition clear_opposing :: "32 word \<Rightarrow> 32 word \<Rightarrow> 32 word \<Rightarrow> 32 word" where
  "clear_opposing u d res =
     (if res AND u \<noteq> 0 then (if res AND d \<noteq> 0 then res AND NOT (u OR d) else res) else res)"

definition filter_opposing :: "InputGetter \<Rightarrow> 32 word \<Rightarrow> 32 word" where
  "filter_opposing gb res =
     clear_opposing (gb LEFT) (gb RIGHT) (clear_opposing (gb UP) (gb DOWN) res)"

definition turbo_step :: "config \<Rightarrow> bool \<Rightarrow> 32 word \<Rightarrow> 32 word \<Rightarrow> 32 word \<Rightarrow> 32 word \<times> 32 word" where
  "turbo_step cfg turbo button counter res =
     (if turbo
      then
        let res1 = res OR (if counter < turbo_pulse_width cfg then button else 0);
            counter1 = counter + 1
        in (res1, if counter1 \<ge> turbo_period cfg then 0 else counter1)
      else (res, 0))"

definition update_input_state :: "config \<Rightarrow> InputGetter \<Rightarrow> joypad \<Rightarrow> globals \<Rightarrow> globals" where
  "update_input_state cfg gb pad g =
     (let res = poll_buttons gb pad;
          g1 = select_a_chord pad g;
          g2 = select_b_chord pad g1;
          turbo_a = pad JOYPAD_X;
          turbo_b = pad JOYPAD_Y;
          res1 = (if \<not> up_down_allowed cfg then filter_opposing gb res else res);
          ra = turbo_step cfg turbo_a (gb A) (turbo_a_counter g2) res1;
          rb = turbo_step cfg turbo_b (gb B) (turbo_b_counter g2) (fst ra)
      in g2\<lparr>turbo_a_counter := snd ra, turbo_b_counter := snd rb,
            libretro_input_state := fst rb\<rparr>)"

text \<open>
  The input handling of several consecutive passes, the level of each chord in a joypad state,
  and the number of rising edges in a sequence of levels (\<open>prev\<close> is the level before the
  sequence).
\<close>

definition run_inputs :: "config \<Rightarrow> InputGetter \<Rightarrow> joypad list \<Rightarrow> globals \<Rightarrow> globals" where
  "run_inputs cfg gb pads g = foldl (\<lambda>g pad. update_input_state cfg gb pad g) g pads"

definition select_a_level :: "joypad \<Rightarrow> bool" where
  "select_a_level pad \<longleftrightarrow> pad JOYPAD_SELECT \<and> pad JOYPAD_A"

definition select_b_level :: "joypad \<Rightarrow> bool" where
  "select_b_level pad \<longleftrightarrow> pad JOYPAD_SELECT \<and> pad JOYPAD_B"

fun rising_edges :: "bool \<Rightarrow> bool list \<Rightarrow> nat" where
  "rising_edges prev [] = 0"
| "rising_edges prev (c # cs) = (if c \<and> \<not> prev then 1 else 0) + rising_edges c cs"

subsection \<open>Frame pacing and the run loop (libretro.cpp, lines 3356--3563)\<close>

text \<open>
  \<^verbatim>\<open>GB::runFor\<close> is external: a call takes the next entry of \<open>core_script\<close>; with no
  entry left the core does not return (\<open>None\<close>). The call is always made with
  \<^verbatim>\<open>samples = SOUND_SAMPLES_PER_RUN\<close>.
\<close>

definition gb_runFor :: "frame_ref \<Rightarrow> globals \<Rightarrow> (int \<times> 32 word \<times> globals) option" where
  "gb_runFor frame_buf g =
     (case core_script g of
        [] \<Rightarrow> None
      | (r, n) # rest \<Rightarrow>
          Some (r, n, g\<lparr>core_script := rest,
                         runfor_log := runfor_log g @ [frame_buf],
                         frames_completed := frames_completed g + (if r = - 1 then 0 else 1)\<rparr>))"

definition render_audio :: "config \<Rightarrow> 32 word \<Rightarrow> globals \<Rightarrow> globals" where
  "render_audio cfg samples g =
     (if use_cc_resampler cfg
      then g\<lparr>audio_events := audio_events g @ [CC_renderaudio samples]\<rparr>
      else g\<lparr>audio_events := audio_events g @ [Blipper_renderaudio samples, Blipper_read_if_half_full]\<rparr>)"

text \<open>
  \<^verbatim>\<open>while (gb.runFor(frame_buf, ...) == -1) { ...; samples_count += samples; samples = SOUND_SAMPLES_PER_RUN; }\<close>.
  The three copies of this loop differ in whether the body feeds the resampler
  (\<open>with_audio\<close>): never in fast-forward, when \<^verbatim>\<open>fast_forward_audio_enabled\<close> in slow
  motion, always at normal speed. The result is the value left in \<^verbatim>\<open>samples\<close>.
\<close>

function run_until_frame ::
  "config \<Rightarrow> frame_ref \<Rightarrow> bool \<Rightarrow> globals \<Rightarrow> (32 word \<times> globals) option" where
  "run_until_frame cfg frame_buf with_audio g =
     (case gb_runFor frame_buf g of
        None \<Rightarrow> None
      | Some (r, samples, g1) \<Rightarrow>
          if r = - 1
          then
            let g2 = (if with_audio then render_audio cfg samples g1 else g1)
            in run_until_frame cfg frame_buf with_audio
                 (g2\<lparr>samples_count := samples_count g2 + ucast samples\<rparr>)
          else Some (samples, g1))"
  by pat_completeness auto
termination
  by (relation "measure (\<lambda>(cfg, frame_buf, with_audio, g). length (core_script g))")
    (auto simp add: gb_runFor_def render_audio_def split: list.splits if_splits)

declare run_until_frame.simps [simp del]

text \<open>
  The fast-forward \<^verbatim>\<open>for\<close> loop of \<^verbatim>\<open>retro_run_internal\<close> (lines 3422--3448) and the
  number of iterations \<^verbatim>\<open>(sf2000_fastforward_state == 1) ? 3 : 5\<close>, which the source
  computes in four places.
\<close>

definition fastforward_iterations :: "32 word \<Rightarrow> nat" where
  "fastforward_iterations state = (if state = 1 then 3 else 5)"

function fastforward_loop ::
  "config \<Rightarrow> nat \<Rightarrow> nat \<Rightarrow> 32 word \<Rightarrow> globals \<Rightarrow> (32 word \<times> globals) option" where
  "fastforward_loop cfg iter iterations samples g =
     (if iter < iterations
      then
        let is_final_frame = (iter = iterations - 1);
            use_frameskip = (sf2000_fastforward_state g = 2 \<and> \<not> is_final_frame);
            frame_buf = (if use_frameskip then NULL_frame else Video_buf)
        in case run_until_frame cfg frame_buf False g of
             None \<Rightarrow> None
           | Some (samples1, g1) \<Rightarrow> fastforward_loop cfg (iter + 1) iterations samples1 g1
      else Some (samples, g))"
  by pat_completeness auto
termination
  by (relation "measure (\<lambda>(cfg, iter, iterations, samples, g). iterations - iter)") auto

declare fastforward_loop.simps [simp del]

text \<open>
  The splash screen branch (lines 3407--3417), the slow-motion branch (lines 3449--3494) and
  the choice between the four branches. The result is the value of \<^verbatim>\<open>samples\<close> after the
  branch, with the state.
\<close>

definition splash_tick :: "globals \<Rightarrow> globals" where
  "splash_tick g =
     (let g1 = g\<lparr>sf2000_splash_timer := sf2000_splash_timer g + 1\<rparr>
      in if sf2000_splash_timer g1 \<ge> SF2000_SPLASH_DURATION
         then g1\<lparr>sf2000_splash_shown := True\<rparr> else g1)"

definition slowmotion_tick :: "config \<Rightarrow> 32 word \<Rightarrow> globals \<Rightarrow> (32 word \<times> globals) option" where
  "slowmotion_tick cfg samples g =
     (let should_run_frame =
            (if sf2000_slowmotion_state g = 1 then sf2000_slowmotion_frame_counter g mod 2 = 0
             else if sf2000_slowmotion_state g = 2 then sf2000_slowmotion_frame_counter g mod 5 = 0
             else False);
          g1 = g\<lparr>sf2000_slowmotion_frame_counter := sf2000_slowmotion_frame_counter g + 1\<rparr>
      in if should_run_frame
         then run_until_frame cfg Video_buf (fast_forward_audio_enabled cfg) g1
         else Some (samples, g1))"

definition emulate :: "config \<Rightarrow> globals \<Rightarrow> (32 word \<times> globals) option" where
  "emulate cfg g =
     (let samples = SOUND_SAMPLES_PER_RUN
      in if \<not> sf2000_splash_shown g \<and> sf2000_splash_timer g < SF2000_SPLASH_DURATION
         then Some (samples, splash_tick g)
         else if sf2000_fastforward_state g > 0
         then fastforward_loop cfg 0 (fastforward_iterations (sf2000_fastforward_state g)) samples g
         else if sf2000_slowmotion_state g > 0
         then slowmotion_tick cfg samples g
         else run_until_frame cfg Video_buf True g)"

text \<open>
  The rest of a pass that ran (lines 3523--3558): delivery of \<^verbatim>\<open>video_buf\<close>, the last
  resampler input, the drain of the output buffer and the advance of \<^verbatim>\<open>frames_count\<close>.
  The call through \<^verbatim>\<open>blend_frames\<close> changes only the pixels of \<^verbatim>\<open>video_buf\<close>, which this
  state does not hold; it is modelled on its own below. \<^verbatim>\<open>fake_rtc_update\<close>, the rumble
  call and the re-read of core options at the end of the pass are outside this state too.
\<close>

definition video_cb :: "frame_ref \<Rightarrow> globals \<Rightarrow> globals" where
  "video_cb frame g =
     g\<lparr>video_out := video_out g @
          [Video_refresh frame VIDEO_WIDTH VIDEO_HEIGHT (VIDEO_PITCH * sizeof_video_pixel_t)]\<rparr>"

definition finish_frame :: "config \<Rightarrow> 32 word \<Rightarrow> globals \<Rightarrow> globals" where
  "finish_frame cfg samples g =
     (let g1 = video_cb Video_buf g;
          g2 = (if use_cc_resampler cfg
                then g1\<lparr>audio_events := audio_events g1 @ [CC_renderaudio samples]\<rparr>
                else g1\<lparr>audio_events := audio_events g1 @ [Blipper_renderaudio samples, Blipper_read_all]\<rparr>);
          g3 = g2\<lparr>samples_count := samples_count g2 + ucast samples\<rparr>;
          g4 = g3\<lparr>audio_events := audio_events g3 @ [Audio_upload_samples]\<rparr>
      in if sf2000_fastforward_state g4 > 0
         then g4\<lparr>frames_count := frames_count g4
                    + (if sf2000_fastforward_state g4 = 1 then 3 else 5)\<rparr>
         else g4\<lparr>frames_count := frames_count g4 + 1\<rparr>)"

text \<open>
  \<^verbatim>\<open>retro_run_internal\<close> (one pass) and \<^verbatim>\<open>retro_run\<close> (one host tick, lines 3358--3377):
  in fast-forward the host tick repeats the pass, and the number of repetitions is read
  before the first pass. \<open>pads i\<close> is the joypad state that the \<open>i\<close>-th pass of the tick
  polls. \<open>two_ticks\<close> is two host ticks in a row.
\<close>

definition retro_run_internal :: "config \<Rightarrow> InputGetter \<Rightarrow> joypad \<Rightarrow> globals \<Rightarrow> globals option" where
  "retro_run_internal cfg gb pad g0 =
     (let g = update_input_state cfg gb pad g0;
          expected_frames = samples_count g div SOUND_SAMPLES_PER_FRAME
      in if frames_count g < expected_frames
         then Some ((video_cb NULL_frame g)\<lparr>frames_count := frames_count g + 1\<rparr>)
         else case emulate cfg g of
                None \<Rightarrow> None
              | Some (samples, g1) \<Rightarrow> Some (finish_frame cfg samples g1))"

fun retro_run_passes ::
  "config \<Rightarrow> InputGetter \<Rightarrow> (nat \<Rightarrow> joypad) \<Rightarrow> nat \<Rightarrow> nat \<Rightarrow> globals \<Rightarrow> globals option" where
  "retro_run_passes cfg gb pads i 0 g = Some g"
| "retro_run_passes cfg gb pads i (Suc k) g =
     (case retro_run_internal cfg gb (pads i) g of
        None \<Rightarrow> None
      | Some g1 \<Rightarrow> retro_run_passes cfg gb pads (i + 1) k g1)"

definition retro_run :: "config \<Rightarrow> InputGetter \<Rightarrow> (nat \<Rightarrow> joypad) \<Rightarrow> globals \<Rightarrow> globals option" where
  "retro_run cfg gb pads g =
     (if sf2000_fastforward_state g > 0
      then retro_run_passes cfg gb pads 0 (fastforward_iterations (sf2000_fastforward_state g)) g
      else retro_run_internal cfg gb (pads 0) g)"


text \<open>
  A sequence of host ticks, each with the joypad states its passes poll.
\<close>

fun retro_run_ticks ::
  "config \<Rightarrow> InputGetter \<Rightarrow> (nat \<Rightarrow> joypad) list \<Rightarrow> globals \<Rightarrow> globals option" where
  "retro_run_ticks cfg gb [] g = Some g"
| "retro_run_ticks cfg gb (pads # rest) g =
     (case retro_run cfg gb pads g of
        None \<Rightarrow> None
      | Some g1 \<Rightarrow> retro_run_ticks cfg gb rest g1)"

text \<open>
  A frame segment is what the core answers while it produces one video frame: answers of
  \<open>-1\<close> followed by one answer that reports the frame. \<open>loop_samples\<close> adds the sample
  counts of a list of answers as \<^verbatim>\<open>samples_count += samples\<close> does, and \<open>loop_audio\<close> is
  the resampler input the loop body produces for them.
\<close>

definition frame_segment :: "(int \<times> 32 word) list \<Rightarrow> bool" where
  "frame_segment seg \<longleftrightarrow>
     seg \<noteq> [] \<and> fst (last seg) \<noteq> - 1 \<and> (\<forall>e \<in> set (butlast seg). fst e = - 1)"

definition loop_audio :: "config \<Rightarrow> bool \<Rightarrow> (int \<times> 32 word) list \<Rightarrow> audio_event list" where
  "loop_audio cfg with_audio pre =
     (if with_audio
      then concat (map (\<lambda>e. if use_cc_resampler cfg then [CC_renderaudio (snd e)]
                               else [Blipper_renderaudio (snd e), Blipper_read_if_half_full]) pre)
      else [])"

definition loop_samples :: "(int \<times> 32 word) list \<Rightarrow> 64 word" where
  "loop_samples pre = sum_list (map (\<lambda>e. ucast (snd e)) pre)"

subsection \<open>Interframe blending, mix filter (libretro.cpp, lines 937--967, 1279--1289)\<close>

text \<open>
  Pixels are RGB565 (\<^verbatim>\<open>uint16_t\<close>, blend mask \<open>0x821\<close>). A video buffer is the list of its
  \<^verbatim>\<open>256 * 144\<close> pixels. \<^verbatim>\<open>allocate_video_buf_prev\<close> allocates the buffer if there is none
  (\<open>malloc_ok\<close> tells whether \<^verbatim>\<open>malloc\<close> succeeds) and clears it with \<^verbatim>\<open>memset\<close>.
  In the mix expression the two \<^verbatim>\<open>uint16_t\<close> operands are promoted to \<^verbatim>\<open>int\<close>, so the sum
  is formed in 32 bits and the result is truncated on the store.
  \<open>blend_mix_row\<close> is the inner loop over \<open>x\<close> of the portable version of
  \<^verbatim>\<open>blend_frames_mix\<close>, \<open>blend_mix_rows\<close> the outer loop over \<open>y\<close>, with \<open>base\<close> the
  offset that \<^verbatim>\<open>curr += VIDEO_PITCH\<close> has reached. The pair is
  (\<^verbatim>\<open>video_buf\<close>, \<^verbatim>\<open>video_buf_prev_1\<close>). The \<^verbatim>\<open>__mips__\<close> variant of the function
  (lines 892--936) is not modelled.
\<close>

type_synonym video_pixel_t = "16 word"

definition video_buf_pixels :: nat where
  "video_buf_pixels = VIDEO_PITCH * VIDEO_HEIGHT"

definition allocate_video_buf_prev ::
  "bool \<Rightarrow> video_pixel_t list option \<Rightarrow> bool \<times> video_pixel_t list option" where
  "allocate_video_buf_prev malloc_ok buf =
     (case buf of
        None \<Rightarrow> if malloc_ok then (True, Some (replicate video_buf_pixels 0)) else (False, None)
      | Some b \<Rightarrow> (True, Some (replicate video_buf_pixels 0)))"

definition mix_rgb565 :: "video_pixel_t \<Rightarrow> video_pixel_t \<Rightarrow> video_pixel_t" where
  "mix_rgb565 rgb_curr rgb_prev =
     ucast (drop_bit 1 ((ucast rgb_curr :: 32 word) + ucast rgb_prev
                         + ((ucast rgb_curr XOR ucast rgb_prev) AND 0x821)))"

function blend_mix_row ::
  "nat \<Rightarrow> nat \<Rightarrow> video_pixel_t list \<times> video_pixel_t list \<Rightarrow> video_pixel_t list \<times> video_pixel_t list" where
  "blend_mix_row base x (curr_buf, prev_buf) =
     (if x < VIDEO_WIDTH
      then
        let rgb_curr = curr_buf ! (base + x);
            rgb_prev = prev_buf ! (base + x);
            prev_buf1 = prev_buf[base + x := rgb_curr];
            curr_buf1 = curr_buf[base + x := mix_rgb565 rgb_curr rgb_prev]
        in blend_mix_row base (x + 1) (curr_buf1, prev_buf1)
      else (curr_buf, prev_buf))"
  by pat_completeness auto
termination
  by (relation "measure (\<lambda>(base, x, bufs). VIDEO_WIDTH - x)") auto

declare blend_mix_row.simps [simp del]

function blend_mix_rows ::
  "nat \<Rightarrow> nat \<Rightarrow> video_pixel_t list \<times> video_pixel_t list \<Rightarrow> video_pixel_t list \<times> video_pixel_t list" where
  "blend_mix_rows y base bufs =
     (if y < VIDEO_HEIGHT
      then blend_mix_rows (y + 1) (base + VIDEO_PITCH) (blend_mix_row base 0 bufs)
      else bufs)"
  by pat_completeness auto
termination
  by (relation "measure (\<lambda>(y, base, bufs). VIDEO_HEIGHT - y)") auto

declare blend_mix_rows.simps [simp del]

definition blend_frames_mix ::
  "video_pixel_t list \<times> video_pixel_t list \<Rightarrow> video_pixel_t list \<times> video_pixel_t list" where
  "blend_frames_mix bufs = blend_mix_rows 0 0 bufs"

subsection \<open>Concrete hosts, inputs and states used in the examples\<close>

text \<open>
  Two host audio sinks (one accepts 2 frames of every batch, one accepts 2 frames of the
  first batch and everything afterwards), a fill value for fresh memory, joypad states, the
  default core options, the state at power-on and the state once the splash screen is over.
  \<open>frame_script k tail\<close> is the answer of the core for one video frame: \<open>k\<close> runs of
  2064 samples without a frame, then the frame after \<open>tail\<close> more samples (a regular frame
  of 35112 samples is \<open>frame_script 17 24\<close>).
\<close>

definition sink_accepts_two :: "unit \<Rightarrow> int16_t list \<Rightarrow> size_t \<Rightarrow> size_t \<times> unit" where
  "sink_accepts_two h block frames = (2, h)"

definition sink_throttles_once :: "nat \<Rightarrow> int16_t list \<Rightarrow> size_t \<Rightarrow> size_t \<times> nat" where
  "sink_throttles_once h block frames = (if h = 0 then 2 else frames, h + 1)"

definition zero_fill :: "nat \<Rightarrow> int16_t" where
  "zero_fill i = 0"

definition frame_script :: "nat \<Rightarrow> 32 word \<Rightarrow> (int \<times> 32 word) list" where
  "frame_script k tail = replicate k (- 1, 2064) @ [(uint tail, tail)]"

definition released :: joypad where
  "released b = False"

definition always_released :: "nat \<Rightarrow> joypad" where
  "always_released i = released"

definition chord_select_a :: joypad where
  "chord_select_a b = (b = JOYPAD_SELECT \<or> b = JOYPAD_A)"

definition chord_select_a_b :: joypad where
  "chord_select_a_b b = (b = JOYPAD_SELECT \<or> b = JOYPAD_A \<or> b = JOYPAD_B)"

definition all_directions :: joypad where
  "all_directions b = (b = JOYPAD_UP \<or> b = JOYPAD_DOWN \<or> b = JOYPAD_LEFT \<or> b = JOYPAD_RIGHT \<or> b = JOYPAD_X)"

definition default_config :: config where
  "default_config = \<lparr>up_down_allowed = False, turbo_period = 4, turbo_pulse_width = 2,
     fast_forward_audio_enabled = False, use_cc_resampler = True\<rparr>"

definition power_on :: "(int \<times> 32 word) list \<Rightarrow> globals" where
  "power_on script =
     \<lparr>sf2000_fastforward_state = 0, sf2000_select_a_prev = False,
      sf2000_slowmotion_state = 0, sf2000_select_b_prev = False,
      sf2000_frame_counter = 0, sf2000_slowmotion_frame_counter = 0,
      sf2000_splash_shown = False, sf2000_splash_timer = 0,
      turbo_a_counter = 0, turbo_b_counter = 0, libretro_input_state = 0,
      samples_count = 0, frames_count = 0, av_info_updates = 0,
      video_out = [], audio_events = [], core_script = script, runfor_log = [],
      frames_completed = 0\<rparr>"

definition after_splash :: "(int \<times> 32 word) list \<Rightarrow> globals" where
  "after_splash script = (power_on script)\<lparr>sf2000_splash_shown := True\<rparr>"

text \<open>
  \<open>hold_select_a\<close> keeps SELECT+A pressed during a host tick, and \<open>regular_frames k\<close> is
  the answer of the core for \<open>k\<close> regular frames. \<open>splash_state k\<close> is the state that
  \<open>k\<close> host ticks without input reach from power-on while the splash screen is shown
  (every such tick counts 2064 samples and one frame and delivers \<^verbatim>\<open>video_buf\<close>), and
  \<open>splash_over\<close> holds the program variables of \<open>splash_state 180\<close>, the state in which
  the splash screen ends, with empty traces.
\<close>

definition hold_select_a :: "nat \<Rightarrow> joypad" where
  "hold_select_a i = chord_select_a"

definition regular_frames :: "nat \<Rightarrow> (int \<times> 32 word) list" where
  "regular_frames k = concat (replicate k (frame_script 17 24))"

definition splash_state :: "nat \<Rightarrow> (int \<times> 32 word) list \<Rightarrow> globals" where
  "splash_state k script =
     \<lparr>sf2000_fastforward_state = 0, sf2000_select_a_prev = False,
      sf2000_slowmotion_state = 0, sf2000_select_b_prev = False,
      sf2000_frame_counter = 0, sf2000_slowmotion_frame_counter = 0,
      sf2000_splash_shown = (180 \<le> k), sf2000_splash_timer = of_nat k,
      turbo_a_counter = 0, turbo_b_counter = 0, libretro_input_state = 0,
      samples_count = of_nat (2064 * k), frames_count = of_nat k, av_info_updates = 0,
      video_out = replicate k (Video_refresh Video_buf 160 144 512),
      audio_events = concat (replicate k [CC_renderaudio 2064, Audio_upload_samples]),
      core_script = script, runfor_log = [], frames_completed = 0\<rparr>"

definition splash_over :: "(int \<times> 32 word) list \<Rightarrow> globals" where
  "splash_over script =
     (power_on script)\<lparr>sf2000_splash_shown := True, sf2000_splash_timer := 180,
                        samples_count := 371520, frames_count := 180\<rparr>"

section \<open>Verified properties\<close>

subsection \<open>Fake real-time clock\<close>

lemma uint_neg_of_sint_neg:
  fixes b :: "32 word"
  assumes "sint b < 0"
  shows "uint (- b) = - sint b"
proof -
  have ge: "- (2 ^ 31) \<le> sint b" using sint_ge [of b] by simp
  have "uint (- b) = (- uint b) mod 2 ^ 32"
    by (simp add: uint_word_ariths)
  also have "\<dots> = (- (sint b mod 2 ^ 32)) mod 2 ^ 32"
    by (simp add: uint_sint [of b] take_bit_eq_mod)
  also have "\<dots> = (- sint b) mod 2 ^ 32"
    by (simp add: mod_minus_eq)
  also have "\<dots> = - sint b"
    using assms ge by simp
  finally show ?thesis .
qed

lemma uint_add_of_sint_pos:
  fixes b t :: "32 word"
  assumes "0 \<le> sint b" "uint t + sint b < 2 ^ 32"
  shows "uint (t + b) = uint t + sint b"
proof -
  have lt: "sint b < 2 ^ 31" using sint_lt [of b] by simp
  have "uint b = sint b mod 2 ^ 32"
    by (simp add: uint_sint [of b] take_bit_eq_mod)
  also have "\<dots> = sint b" using assms(1) lt by simp
  finally have ub: "uint b = sint b" .
  have "uint (t + b) = (uint t + uint b) mod 2 ^ 32"
    by (simp add: uint_word_ariths)
  also have "\<dots> = uint t + sint b"
  proof -
    have "0 \<le> uint t + sint b" using assms(1) by simp
    then show ?thesis using assms(2) ub by simp
  qed
  finally show ?thesis .
qed

text \<open>
  Claim C9, as the code has it. With the clock enabled, a negative bump whose magnitude
  exceeds \<open>total_minutes\<close> sets \<open>total_minutes\<close> to exactly 0; any other bump whose
  sum with \<open>total_minutes\<close> still fits in 32 bits changes \<open>total_minutes\<close> by exactly
  \<open>bump_minutes\<close>; \<open>needs_save\<close> is raised. With the clock disabled the call changes
  nothing. (The guard exists at the lower end only: nothing is promised here for a positive
  bump that carries past \<open>2^32 - 1\<close>.)
\<close>

theorem bump_time_clamps_at_zero:
  "(enabled st \<longrightarrow>
      (sint b < 0 \<and> uint (total_minutes st) < - sint b \<longrightarrow>
         total_minutes (bump_time st b) = 0) \<and>
      (\<not> (sint b < 0 \<and> uint (total_minutes st) < - sint b) \<and>
       uint (total_minutes st) + sint b < 2 ^ 32 \<longrightarrow>
         uint (total_minutes (bump_time st b)) = uint (total_minutes st) + sint b) \<and>
      needs_save (bump_time st b)) \<and>
   (\<not> enabled st \<longrightarrow> bump_time st b = st)"
proof -
  consider (pos) "0 < sint b" | (neg) "sint b < 0" | (zero) "sint b = 0" by linarith
  then show ?thesis
  proof cases
    case pos
    then show ?thesis
      by (simp add: bump_time_def uint_add_of_sint_pos)
  next
    case neg
    have u: "uint (- b) = - sint b" by (rule uint_neg_of_sint_neg [OF neg])
    have gt: "(- b > total_minutes st) = (uint (total_minutes st) < - sint b)"
      by (simp add: word_less_def u)
    show ?thesis
    proof (cases "uint (total_minutes st) < - sint b")
      case True
      then show ?thesis using neg gt by (simp add: bump_time_def Let_def)
    next
      case False
      then have le: "- b \<le> total_minutes st" using gt by simp
      have "uint (total_minutes st - (- b)) = uint (total_minutes st) - uint (- b)"
        using le by (simp add: uint_minus_simple_alt)
      then show ?thesis using neg gt False u by (simp add: bump_time_def Let_def)
    qed
  next
    case zero
    then show ?thesis by (simp add: bump_time_def)
  qed
qed

text \<open>
  The theorem at work: from 100 minutes, a bump of \<open>-250\<close> gives 0, \<open>-40\<close> gives 60 and
  \<open>+40\<close> gives 140; a disabled clock stays as it is.
\<close>

theorem bump_time_clamps_at_zero_witness:
  "total_minutes (bump_time \<lparr>total_minutes = 100, last_real_time = 0, enabled = True, needs_save = False\<rparr> (- 250)) = 0
   \<and> uint (total_minutes (bump_time \<lparr>total_minutes = 100, last_real_time = 0, enabled = True, needs_save = False\<rparr> (- 40))) = 60
   \<and> uint (total_minutes (bump_time \<lparr>total_minutes = 100, last_real_time = 0, enabled = True, needs_save = False\<rparr> 40)) = 140
   \<and> bump_time \<lparr>total_minutes = 100, last_real_time = 0, enabled = False, needs_save = False\<rparr> 40
       = \<lparr>total_minutes = 100, last_real_time = 0, enabled = False, needs_save = False\<rparr>"
  using bump_time_clamps_at_zero [of "\<lparr>total_minutes = 100, last_real_time = 0, enabled = True, needs_save = False\<rparr>" "- 250"]
    bump_time_clamps_at_zero [of "\<lparr>total_minutes = 100, last_real_time = 0, enabled = True, needs_save = False\<rparr>" "- 40"]
    bump_time_clamps_at_zero [of "\<lparr>total_minutes = 100, last_real_time = 0, enabled = True, needs_save = False\<rparr>" "40"]
    bump_time_clamps_at_zero [of "\<lparr>total_minutes = 100, last_real_time = 0, enabled = False, needs_save = False\<rparr>" "40"]
  by simp

text \<open>
  Claim C9 as stated fails: "for every other bump value, \<open>total_minutes\<close> changes by
  exactly \<open>bump_minutes\<close>". With \<open>total_minutes = 2^32 - 1\<close> a bump of \<open>+1\<close> wraps to 0
  instead of adding 1, and on a disabled clock a bump of \<open>+5\<close> changes nothing.
\<close>

theorem bump_time_exact_change_counterexample:
  "uint (total_minutes (bump_time \<lparr>total_minutes = 4294967295, last_real_time = 0, enabled = True, needs_save = False\<rparr> 1))
     \<noteq> uint (4294967295 :: 32 word) + sint (1 :: 32 word)
   \<and> total_minutes (bump_time \<lparr>total_minutes = 4294967295, last_real_time = 0, enabled = True, needs_save = False\<rparr> 1) = 0
   \<and> uint (total_minutes (bump_time \<lparr>total_minutes = 100, last_real_time = 0, enabled = False, needs_save = False\<rparr> 5))
     \<noteq> uint (100 :: 32 word) + sint (5 :: 32 word)"
  by (simp add: bump_time_def)

subsection \<open>Audio output buffer: word arithmetic and memory copies\<close>

text \<open>
  Unsigned readings of the 32-bit operations the buffer code uses, each under the bound that
  excludes wrap-around, and the effect of a copy that stays inside both blocks.
\<close>

lemma u_add: "unat a + unat b < 2 ^ 32 \<Longrightarrow> unat (a + b) = unat a + unat (b :: 32 word)"
  using unat_add_lem [of a b] by simp

lemma u_sub: "b \<le> a \<Longrightarrow> unat (a - b) = unat a - unat (b :: 32 word)"
  by (simp add: unat_sub)

lemma u_shl1: "2 * unat a < 2 ^ 32 \<Longrightarrow> unat (push_bit 1 a) = 2 * unat (a :: 32 word)"
proof -
  assume a: "2 * unat a < 2 ^ 32"
  then show ?thesis using unat_mult_lem [of a 2] by (simp add: mult.commute)
qed

lemma u_shr1: "unat (drop_bit 1 a) = unat (a :: 32 word) div 2"
  by (simp add: drop_bit_eq_div unat_div)

lemma u_bytes: "unat a < 2 ^ 31 \<Longrightarrow> unat (a * sizeof_int16_t) div 2 = unat (a :: 32 word)"
proof -
  assume a: "unat a < 2 ^ 31"
  then have "unat a * unat (2 :: 32 word) < 2 ^ 32" by simp
  then have "unat (a * 2) = unat a * unat (2 :: 32 word)"
    using unat_mult_lem [of a 2] by simp
  then show ?thesis by (simp add: sizeof_int16_t_def)
qed

lemma length_malloc_int16:
  "unat n < 2 ^ 31 \<Longrightarrow> length (malloc_int16 fresh (n * sizeof_int16_t)) = unat n"
  by (simp add: malloc_int16_def u_bytes)

lemma memcpy_at_inside:
  assumes "unat bytes div 2 = n" and "off + n \<le> length dst" and "n \<le> length src"
  shows "memcpy_at dst off src bytes = Some (take off dst @ take n src @ drop (off + n) dst)"
  using assms by (simp add: memcpy_at_def Let_def)

lemma memcpy_at_outside:
  assumes "length dst < off + unat bytes div 2"
  shows "memcpy_at dst off src bytes = None"
  using assms by (simp add: memcpy_at_def Let_def)

lemma stored_length:
  "off + n \<le> length dst \<Longrightarrow> n \<le> length src \<Longrightarrow>
   length (take off dst @ take n src @ drop (off + n) dst) = length dst"
  by simp

lemma stored_take:
  "off + n \<le> length dst \<Longrightarrow> n \<le> length src \<Longrightarrow>
   take (off + n) (take off dst @ take n src @ drop (off + n) dst) = take off dst @ take n src"
  by simp

subsection \<open>Growth of the buffer\<close>

text \<open>
  All sizes below are bounded by \<open>2^30\<close> cells of pending data and \<open>2^31\<close> cells of
  buffer: far more than the device holds, and enough for every shift, sum and byte count of
  \<^verbatim>\<open>audio_out_buffer_resize\<close> and \<^verbatim>\<open>audio_out_buffer_write\<close> to stay below \<open>2^32\<close>.
  Under these bounds a resize that finds the capacity short returns a block that is
  longer than the old size plus the deficit, keeps the cells below the cursor, and restores
  the invariant.
\<close>

lemma resize_grow:
  assumes inv: "audio_out_inv st"
    and sz: "unat (audio_out_buffer_size st) < 2 ^ 31"
    and fit: "unat (audio_out_buffer_pos st) + 2 * unat n < 2 ^ 30"
    and short: "drop_bit 1 (audio_out_buffer_size st - audio_out_buffer_pos st) < n"
  shows "\<exists>st1. audio_out_buffer_resize fresh n st = Some st1 \<and>
           audio_out_inv st1 \<and>
           audio_out_buffer_pos st1 = audio_out_buffer_pos st \<and>
           audio_batch_frames_max st1 = audio_batch_frames_max st \<and>
           take (unat (audio_out_buffer_pos st)) (audio_out_buffer st1)
             = take (unat (audio_out_buffer_pos st)) (audio_out_buffer st) \<and>
           unat (audio_out_buffer_pos st) + 2 * unat n \<le> unat (audio_out_buffer_size st1) \<and>
           unat (audio_out_buffer_size st1) < 2 ^ 31 \<and>
           length (audio_out_buffer st)
             + 2 * (unat n - unat (drop_bit 1 (audio_out_buffer_size st - audio_out_buffer_pos st)))
             < length (audio_out_buffer st1)"
proof -
  let ?S = "unat (audio_out_buffer_size st)" and ?P = "unat (audio_out_buffer_pos st)"
  let ?N = "unat n"
  let ?cap = "drop_bit 1 (audio_out_buffer_size st - audio_out_buffer_pos st)"
  let ?C = "(?S - ?P) div 2"
  let ?t = "audio_out_buffer_size st + push_bit 1 (n - ?cap)"
  let ?t' = "push_bit 1 ?t - drop_bit 1 ?t"
  let ?T = "?S + 2 * (?N - ?C)"
  let ?buf = "audio_out_buffer st"
  have ple: "audio_out_buffer_pos st \<le> audio_out_buffer_size st"
    and len: "length ?buf = ?S"
    using inv by (simp_all add: audio_out_inv_def)
  have PS: "?P \<le> ?S" using ple by (simp add: word_le_nat_alt)
  have C: "unat ?cap = ?C" by (simp only: u_shr1 u_sub [OF ple])
  have CN: "?C < ?N" using short C by (simp only: word_less_nat_alt)
  have d: "unat (n - ?cap) = ?N - ?C"
    using short by (simp only: u_sub [OF less_imp_le] C)
  have Tb: "?T \<le> ?P + 2 * ?N + 1" using PS CN by presburger
  have TP: "?P + 2 * ?N \<le> ?T" using PS CN by presburger
  have d2: "unat (push_bit 1 (n - ?cap)) = 2 * (?N - ?C)"
  proof -
    have "2 * unat (n - ?cap) < 2 ^ 32" using d fit by simp
    from u_shl1 [OF this] d show ?thesis by simp
  qed
  have T: "unat ?t = ?T"
  proof -
    have "unat (audio_out_buffer_size st) + unat (push_bit 1 (n - ?cap)) < 2 ^ 32"
      using d2 sz fit by simp
    from u_add [OF this] d2 show ?thesis by simp
  qed
  have T2: "unat (push_bit 1 ?t) = 2 * ?T"
  proof -
    have "2 * unat ?t < 2 ^ 32" using T Tb fit by simp
    from u_shl1 [OF this] T show ?thesis by simp
  qed
  have Th: "unat (drop_bit 1 ?t) = ?T div 2" by (simp only: u_shr1 T)
  have le: "drop_bit 1 ?t \<le> push_bit 1 ?t"
    by (simp only: word_le_nat_alt T2 Th) simp
  have T': "unat ?t' = 2 * ?T - ?T div 2"
    by (simp only: u_sub [OF le] T2 Th)
  define tw where "tw = ?t'"
  define blk where "blk = malloc_int16 fresh (tw * sizeof_int16_t)"
  define b where "b = take 0 blk @ take ?P ?buf @ drop (0 + ?P) blk"
  define st1 where "st1 = st\<lparr>audio_out_buffer := b, audio_out_buffer_size := tw\<rparr>"
  define V where "V = ?T"
  define W where "W = unat tw"
  have V1: "?P + 2 * ?N \<le> V" and V2: "V \<le> ?P + 2 * ?N + 1" and V3: "W = 2 * V - V div 2"
    and V4: "V = ?S + 2 * (?N - ?C)"
    using TP Tb T' by (simp_all only: V_def W_def tw_def)
  have V5: "2 \<le> V" using CN V4 by linarith
  have W1: "?P + 2 * ?N \<le> W" unfolding V3 using V1 by linarith
  have "V \<le> 2 ^ 30" using V2 fit by linarith
  then have W2: "W < 2 ^ 31" unfolding V3 by simp
  have W3: "?S + 2 * (?N - ?C) < W" unfolding V3 using V4 V5 by linarith
  have PW: "?P \<le> W" using W1 by simp
  have lblk: "length blk = W"
    unfolding W_def blk_def using W2 [unfolded W_def] by (rule length_malloc_int16)
  have pbytes: "unat (audio_out_buffer_pos st * sizeof_int16_t) div 2 = ?P"
    using PS sz by (intro u_bytes) simp
  have in_dst: "0 + ?P \<le> length blk" using PW lblk by simp
  have in_src: "?P \<le> length ?buf" using PS len by simp
  have mc: "memcpy_at blk 0 ?buf (audio_out_buffer_pos st * sizeof_int16_t) = Some b"
    unfolding b_def by (rule memcpy_at_inside [OF pbytes in_dst in_src])
  have res: "audio_out_buffer_resize fresh n st = Some st1"
    unfolding audio_out_buffer_resize_def Let_def st1_def
    using short mc unfolding blk_def tw_def by simp
  have lb: "length b = W"
    unfolding b_def using in_dst in_src lblk by simp
  have tk: "take ?P b = take ?P ?buf"
    unfolding b_def using in_src by simp
  have f: "audio_out_buffer st1 = b" "audio_out_buffer_size st1 = tw"
    "audio_out_buffer_pos st1 = audio_out_buffer_pos st"
    "audio_batch_frames_max st1 = audio_batch_frames_max st"
    by (simp_all add: st1_def)
  have i1: "audio_out_inv st1"
    unfolding audio_out_inv_def f word_le_nat_alt using lb PW by (simp add: W_def)
  have i5: "?P + 2 * ?N \<le> unat (audio_out_buffer_size st1)"
    unfolding f using W1 by (simp add: W_def)
  have i6: "unat (audio_out_buffer_size st1) < 2 ^ 31"
    unfolding f using W2 by (simp add: W_def)
  have i7: "length ?buf + 2 * (?N - unat ?cap) < length (audio_out_buffer st1)"
    unfolding C len f lb by (rule W3)
  have i4: "take ?P (audio_out_buffer st1) = take ?P ?buf"
    unfolding f by (rule tk)
  show ?thesis
    using res i1 f(3) f(4) i4 i5 i6 i7 by blast
qed

lemma resize_props:
  assumes inv: "audio_out_inv st"
    and sz: "unat (audio_out_buffer_size st) < 2 ^ 31"
    and fit: "unat (audio_out_buffer_pos st) + 2 * unat n < 2 ^ 30"
  shows "\<exists>st1. audio_out_buffer_resize fresh n st = Some st1 \<and>
           audio_out_inv st1 \<and>
           audio_out_buffer_pos st1 = audio_out_buffer_pos st \<and>
           audio_batch_frames_max st1 = audio_batch_frames_max st \<and>
           take (unat (audio_out_buffer_pos st)) (audio_out_buffer st1)
             = take (unat (audio_out_buffer_pos st)) (audio_out_buffer st) \<and>
           unat (audio_out_buffer_pos st) + 2 * unat n \<le> unat (audio_out_buffer_size st1) \<and>
           unat (audio_out_buffer_size st1) < 2 ^ 31 \<and>
           (drop_bit 1 (audio_out_buffer_size st - audio_out_buffer_pos st) < n \<longrightarrow>
              length (audio_out_buffer st)
                + 2 * (unat n - unat (drop_bit 1 (audio_out_buffer_size st - audio_out_buffer_pos st)))
                < length (audio_out_buffer st1))"
proof (cases "drop_bit 1 (audio_out_buffer_size st - audio_out_buffer_pos st) < n")
  case True
  from resize_grow [OF inv sz fit True, of fresh] show ?thesis by blast
next
  case False
  let ?S = "unat (audio_out_buffer_size st)" and ?P = "unat (audio_out_buffer_pos st)"
  let ?cap = "drop_bit 1 (audio_out_buffer_size st - audio_out_buffer_pos st)"
  have ple: "audio_out_buffer_pos st \<le> audio_out_buffer_size st"
    using inv by (simp add: audio_out_inv_def)
  have PS: "?P \<le> ?S" using ple by (simp add: word_le_nat_alt)
  have C: "unat ?cap = (?S - ?P) div 2" by (simp only: u_shr1 u_sub [OF ple])
  have same: "audio_out_buffer_resize fresh n st = Some st"
    using False by (simp add: audio_out_buffer_resize_def Let_def)
  from False have "unat n \<le> (?S - ?P) div 2" using C by (simp add: word_less_nat_alt)
  then have "?P + 2 * unat n \<le> ?S" using PS by presburger
  then show ?thesis using same inv sz False by simp
qed

lemma write_props:
  assumes inv: "audio_out_inv st"
    and sz: "unat (audio_out_buffer_size st) < 2 ^ 31"
    and fit: "unat (audio_out_buffer_pos st) + 2 * unat n < 2 ^ 30"
    and wf: "length samples = 2 * unat n"
  shows "\<exists>st'. audio_out_buffer_write fresh samples n st = Some st' \<and>
           audio_out_inv st' \<and>
           unat (audio_out_buffer_pos st') = unat (audio_out_buffer_pos st) + 2 * unat n \<and>
           take (unat (audio_out_buffer_pos st')) (audio_out_buffer st')
             = take (unat (audio_out_buffer_pos st)) (audio_out_buffer st) @ samples \<and>
           unat (audio_out_buffer_size st') < 2 ^ 31 \<and>
           audio_batch_frames_max st' = audio_batch_frames_max st \<and>
           (drop_bit 1 (audio_out_buffer_size st - audio_out_buffer_pos st) < n \<longrightarrow>
              length (audio_out_buffer st)
                + 2 * (unat n - unat (drop_bit 1 (audio_out_buffer_size st - audio_out_buffer_pos st)))
                < length (audio_out_buffer st'))"
proof -
  let ?P = "unat (audio_out_buffer_pos st)" and ?N = "unat n"
  from resize_props [OF inv sz fit, of fresh] obtain st1 where
    r: "audio_out_buffer_resize fresh n st = Some st1"
      "audio_out_inv st1"
      "audio_out_buffer_pos st1 = audio_out_buffer_pos st"
      "audio_batch_frames_max st1 = audio_batch_frames_max st"
      "take ?P (audio_out_buffer st1) = take ?P (audio_out_buffer st)"
      "?P + 2 * ?N \<le> unat (audio_out_buffer_size st1)"
      "unat (audio_out_buffer_size st1) < 2 ^ 31"
      "drop_bit 1 (audio_out_buffer_size st - audio_out_buffer_pos st) < n \<longrightarrow>
         length (audio_out_buffer st)
           + 2 * (unat n - unat (drop_bit 1 (audio_out_buffer_size st - audio_out_buffer_pos st)))
           < length (audio_out_buffer st1)"
    by blast
  let ?buf1 = "audio_out_buffer st1"
  let ?b = "take ?P ?buf1 @ take (2 * ?N) samples @ drop (?P + 2 * ?N) ?buf1"
  let ?st' = "st1\<lparr>audio_out_buffer := ?b,
                    audio_out_buffer_pos := audio_out_buffer_pos st1 + push_bit 1 n\<rparr>"
  have len1: "length ?buf1 = unat (audio_out_buffer_size st1)"
    using r(2) by (simp add: audio_out_inv_def)
  have n2: "unat (push_bit 1 n) = 2 * ?N"
    using fit by (intro u_shl1) simp
  have bytes: "unat (push_bit 1 n * sizeof_int16_t) div 2 = 2 * ?N"
    using fit n2 u_bytes [of "push_bit 1 n"] by simp
  have room: "?P + 2 * ?N \<le> length ?buf1" using r(6) len1 by simp
  have src: "2 * ?N \<le> length samples" using wf by simp
  have mc: "memcpy_at ?buf1 (unat (audio_out_buffer_pos st1)) samples (push_bit 1 n * sizeof_int16_t)
      = Some ?b"
    unfolding r(3) by (rule memcpy_at_inside [OF bytes room src])
  have res: "audio_out_buffer_write fresh samples n st = Some ?st'"
    unfolding audio_out_buffer_write_def r(1) using mc by simp
  have P': "unat (audio_out_buffer_pos ?st') = ?P + 2 * ?N"
    using fit n2 r(3) by (simp add: u_add)
  have lb: "length ?b = length ?buf1"
    using room src by simp
  have i1: "audio_out_inv ?st'"
  proof -
    have "audio_out_buffer_pos ?st' \<le> audio_out_buffer_size ?st'"
      unfolding word_le_nat_alt P' using r(6) by simp
    then show ?thesis using lb len1 by (simp add: audio_out_inv_def)
  qed
  have tk: "take (?P + 2 * ?N) ?b = take ?P ?buf1 @ take (2 * ?N) samples"
    using room src by simp
  have i3: "take (unat (audio_out_buffer_pos ?st')) (audio_out_buffer ?st')
      = take ?P (audio_out_buffer st) @ samples"
    unfolding P' using tk r(5) wf by simp
  have i4: "unat (audio_out_buffer_size ?st') < 2 ^ 31" using r(7) by simp
  have i5: "audio_batch_frames_max ?st' = audio_batch_frames_max st" using r(4) by simp
  have i6: "drop_bit 1 (audio_out_buffer_size st - audio_out_buffer_pos st) < n \<longrightarrow>
              length (audio_out_buffer st)
                + 2 * (unat n - unat (drop_bit 1 (audio_out_buffer_size st - audio_out_buffer_pos st)))
                < length (audio_out_buffer ?st')"
    using r(8) lb by simp
  show ?thesis
    using res i1 P' i3 i4 i5 i6 by (intro exI [of _ ?st']) blast
qed

lemma writes_props:
  assumes "audio_out_inv st"
    and "unat (audio_out_buffer_size st) < 2 ^ 31"
    and "unat (audio_out_buffer_pos st) + length (concat (map fst ws)) < 2 ^ 30"
    and "\<forall>(samples, n) \<in> set ws. length samples = 2 * unat n"
  shows "\<exists>st'. audio_out_buffer_writes fresh ws st = Some st' \<and>
           audio_out_inv st' \<and>
           unat (audio_out_buffer_pos st')
             = unat (audio_out_buffer_pos st) + length (concat (map fst ws)) \<and>
           take (unat (audio_out_buffer_pos st')) (audio_out_buffer st')
             = take (unat (audio_out_buffer_pos st)) (audio_out_buffer st) @ concat (map fst ws) \<and>
           audio_batch_frames_max st' = audio_batch_frames_max st \<and>
           unat (audio_out_buffer_size st') < 2 ^ 31"
  using assms
proof (induction ws arbitrary: st)
  case Nil
  then show ?case by simp
next
  case (Cons w ws)
  obtain samples n where w: "w = (samples, n)" by (cases w)
  have wf: "length samples = 2 * unat n" using Cons.prems(4) w by simp
  have fit: "unat (audio_out_buffer_pos st) + 2 * unat n < 2 ^ 30"
    using Cons.prems(3) w wf by simp
  from write_props [OF Cons.prems(1) Cons.prems(2) fit wf, of fresh] obtain st1 where
    p: "audio_out_buffer_write fresh samples n st = Some st1"
      "audio_out_inv st1"
      "unat (audio_out_buffer_pos st1) = unat (audio_out_buffer_pos st) + 2 * unat n"
      "take (unat (audio_out_buffer_pos st1)) (audio_out_buffer st1)
         = take (unat (audio_out_buffer_pos st)) (audio_out_buffer st) @ samples"
      "unat (audio_out_buffer_size st1) < 2 ^ 31"
      "audio_batch_frames_max st1 = audio_batch_frames_max st"
    by blast
  have fit': "unat (audio_out_buffer_pos st1) + length (concat (map fst ws)) < 2 ^ 30"
    using Cons.prems(3) w wf p(3) by simp
  have wf': "\<forall>(samples, n) \<in> set ws. length samples = 2 * unat n"
    using Cons.prems(4) by simp
  from Cons.IH [OF p(2) p(5) fit' wf'] obtain st' where
    ih: "audio_out_buffer_writes fresh ws st1 = Some st'"
      "audio_out_inv st'"
      "unat (audio_out_buffer_pos st')
         = unat (audio_out_buffer_pos st1) + length (concat (map fst ws))"
      "take (unat (audio_out_buffer_pos st')) (audio_out_buffer st')
         = take (unat (audio_out_buffer_pos st1)) (audio_out_buffer st1) @ concat (map fst ws)"
      "audio_batch_frames_max st' = audio_batch_frames_max st1"
      "unat (audio_out_buffer_size st') < 2 ^ 31"
    by blast
  have e: "audio_out_buffer_writes fresh (w # ws) st = Some st'"
    using p(1) ih(1) by (simp add: w)
  have c: "concat (map fst (w # ws)) = samples @ concat (map fst ws)" by (simp add: w)
  have i2: "unat (audio_out_buffer_pos st')
      = unat (audio_out_buffer_pos st) + length (samples @ concat (map fst ws))"
    using ih(3) p(3) wf by simp
  have i3: "take (unat (audio_out_buffer_pos st')) (audio_out_buffer st')
      = take (unat (audio_out_buffer_pos st)) (audio_out_buffer st) @ samples @ concat (map fst ws)"
    using ih(4) p(4) by simp
  have i4: "audio_batch_frames_max st' = audio_batch_frames_max st"
    using ih(5) p(6) by simp
  show ?case unfolding c using e ih(2) i2 i3 i4 ih(6) by blast
qed

subsection \<open>The drain loop\<close>

text \<open>
  With a positive ceiling every pass through the loop body offers at least one frame, so
  \<^verbatim>\<open>num_samples\<close> falls strictly and the loop returns; the ceiling stays positive and never
  rises. The blocks offered are consecutive pieces of the buffer.
\<close>

lemma step_fields:
  "offered (upload_loop_step cb buf d) =
     offered d @ [take (2 * unat (samples_to_write d)) (drop (unat (audio_out_buffer_ptr d)) buf)]"
  "accepted (upload_loop_step cb buf d) =
     accepted d @ [fst (cb (host d)
        (take (2 * unat (samples_to_write d)) (drop (unat (audio_out_buffer_ptr d)) buf))
        (samples_to_write d))]"
  "num_samples (upload_loop_step cb buf d) = num_samples d - samples_to_write d"
  "audio_out_buffer_ptr (upload_loop_step cb buf d) =
     audio_out_buffer_ptr d + push_bit 1 (samples_to_write d)"
  by (simp_all add: upload_loop_step_def Let_def)

lemma samples_to_write_le: "samples_to_write d \<le> num_samples d"
  "samples_to_write d \<le> batch_frames_max d"
  by (auto simp add: samples_to_write_def)

lemma samples_to_write_pos:
  "0 < batch_frames_max d \<Longrightarrow> 0 < num_samples d \<Longrightarrow> 0 < samples_to_write d"
  by (simp add: samples_to_write_def)

lemma step_max:
  "0 < batch_frames_max d \<Longrightarrow> 0 < batch_frames_max (upload_loop_step cb buf d)"
  "batch_frames_max (upload_loop_step cb buf d) \<le> batch_frames_max d"
  using samples_to_write_le(2) [of d]
  by (auto simp add: upload_loop_step_def Let_def)

lemma step_ceiling:
  assumes "0 < fst (cb (host d) (take (2 * unat (samples_to_write d)) (drop (unat (audio_out_buffer_ptr d)) buf)) (samples_to_write d))"
    and "fst (cb (host d) (take (2 * unat (samples_to_write d)) (drop (unat (audio_out_buffer_ptr d)) buf)) (samples_to_write d)) < samples_to_write d"
  shows "batch_frames_max (upload_loop_step cb buf d) =
     fst (cb (host d) (take (2 * unat (samples_to_write d)) (drop (unat (audio_out_buffer_ptr d)) buf)) (samples_to_write d))"
  using assms by (simp add: upload_loop_step_def Let_def)

lemma step_measure:
  assumes "0 < batch_frames_max d" "0 < num_samples d"
  shows "unat (num_samples (upload_loop_step cb buf d)) < unat (num_samples d)"
proof -
  have p: "0 < unat (samples_to_write d)"
    using samples_to_write_pos [OF assms] by (simp add: word_less_nat_alt)
  have "unat (num_samples d - samples_to_write d) = unat (num_samples d) - unat (samples_to_write d)"
    by (rule u_sub [OF samples_to_write_le(1)])
  moreover have "unat (samples_to_write d) \<le> unat (num_samples d)"
    using samples_to_write_le(1) [of d] by (simp add: word_le_nat_alt)
  ultimately show ?thesis using p by (simp add: step_fields)
qed

lemma upload_loop_terminates:
  assumes "0 < batch_frames_max d"
  shows "\<exists>d'. upload_loop cb buf d = Some d' \<and> num_samples d' = 0 \<and>
           0 < batch_frames_max d' \<and> batch_frames_max d' \<le> batch_frames_max d"
  using assms
proof (induction "unat (num_samples d)" arbitrary: d rule: less_induct)
  case less
  show ?case
  proof (cases "0 < num_samples d")
    case False
    then have "num_samples d = 0" by (simp add: word_gt_0)
    then show ?thesis using less.prems by (subst upload_loop.simps) simp
  next
    case True
    let ?d1 = "upload_loop_step cb buf d"
    have m: "unat (num_samples ?d1) < unat (num_samples d)"
      by (rule step_measure [OF less.prems True])
    have p: "0 < batch_frames_max ?d1" by (rule step_max(1) [OF less.prems])
    from less.hyps [OF m p] obtain d' where
      d': "upload_loop cb buf ?d1 = Some d'" "num_samples d' = 0" "0 < batch_frames_max d'"
        "batch_frames_max d' \<le> batch_frames_max ?d1"
      by blast
    have "upload_loop cb buf d = Some d'"
      using True d'(1) by (subst upload_loop.simps) simp
    moreover have "batch_frames_max d' \<le> batch_frames_max d"
      using d'(4) step_max(2) [of cb buf d] by simp
    ultimately show ?thesis using d'(2,3) by blast
  qed
qed

lemma upload_loop_offers_all:
  assumes "upload_loop cb buf d = Some d'"
    and "0 < batch_frames_max d"
    and "unat (audio_out_buffer_ptr d) + 2 * unat (num_samples d) < 2 ^ 32"
  shows "\<exists>blocks. offered d' = offered d @ blocks \<and>
           concat blocks = take (2 * unat (num_samples d)) (drop (unat (audio_out_buffer_ptr d)) buf) \<and>
           (\<forall>b \<in> set blocks. length b \<le> 2 * unat (batch_frames_max d)) \<and>
           length (accepted d') = length (accepted d) + length blocks"
  using assms
proof (induction "unat (num_samples d)" arbitrary: d rule: less_induct)
  case less
  show ?case
  proof (cases "0 < num_samples d")
    case False
    then have z: "num_samples d = 0" by (simp add: word_gt_0)
    then have "upload_loop cb buf d = Some d" by (subst upload_loop.simps) simp
    then have "d' = d" using less.prems(1) by simp
    then show ?thesis using z by simp
  next
    case True
    let ?d1 = "upload_loop_step cb buf d"
    let ?tw = "samples_to_write d"
    let ?block = "take (2 * unat ?tw) (drop (unat (audio_out_buffer_ptr d)) buf)"
    have m: "unat (num_samples ?d1) < unat (num_samples d)"
      by (rule step_measure [OF less.prems(2) True])
    have p: "0 < batch_frames_max ?d1" by (rule step_max(1) [OF less.prems(2)])
    have run: "upload_loop cb buf ?d1 = Some d'"
      using less.prems(1) True by (subst (asm) upload_loop.simps) simp
    have twn: "unat ?tw \<le> unat (num_samples d)"
      using samples_to_write_le(1) [of d] by (simp add: word_le_nat_alt)
    have twm: "unat ?tw \<le> unat (batch_frames_max d)"
      using samples_to_write_le(2) [of d] by (simp add: word_le_nat_alt)
    have n1: "unat (num_samples ?d1) = unat (num_samples d) - unat ?tw"
      unfolding step_fields by (rule u_sub [OF samples_to_write_le(1)])
    have sh: "unat (push_bit 1 ?tw) = 2 * unat ?tw"
      using twn less.prems(3) by (intro u_shl1) simp
    have p1: "unat (audio_out_buffer_ptr ?d1) = unat (audio_out_buffer_ptr d) + 2 * unat ?tw"
      unfolding step_fields using sh twn less.prems(3) by (subst u_add) simp_all
    have b1: "unat (audio_out_buffer_ptr ?d1) + 2 * unat (num_samples ?d1) < 2 ^ 32"
      using p1 n1 twn less.prems(3) by simp
    from less.hyps [OF m run p b1] obtain blocks where
      bl: "offered d' = offered ?d1 @ blocks"
        "concat blocks = take (2 * unat (num_samples ?d1)) (drop (unat (audio_out_buffer_ptr ?d1)) buf)"
        "\<forall>b \<in> set blocks. length b \<le> 2 * unat (batch_frames_max ?d1)"
        "length (accepted d') = length (accepted ?d1) + length blocks"
      by blast
    have mle: "unat (batch_frames_max ?d1) \<le> unat (batch_frames_max d)"
      using step_max(2) [of cb buf d] by (simp add: word_le_nat_alt)
    have a: "offered d' = offered d @ (?block # blocks)"
      using bl(1) by (simp add: step_fields)
    have "2 * unat (num_samples d) = 2 * unat ?tw + 2 * (unat (num_samples d) - unat ?tw)"
      using twn by simp
    then have "take (2 * unat (num_samples d)) (drop (unat (audio_out_buffer_ptr d)) buf)
        = ?block @ take (2 * (unat (num_samples d) - unat ?tw))
                     (drop (2 * unat ?tw) (drop (unat (audio_out_buffer_ptr d)) buf))"
      by (simp only: take_add)
    then have b: "concat (?block # blocks)
        = take (2 * unat (num_samples d)) (drop (unat (audio_out_buffer_ptr d)) buf)"
      using bl(2) n1 p1 by (simp add: add.commute)
    have c: "\<forall>b \<in> set (?block # blocks). length b \<le> 2 * unat (batch_frames_max d)"
      using bl(3) mle twm by auto
    have e: "length (accepted d') = length (accepted d) + length (?block # blocks)"
      using bl(4) by (simp add: step_fields)
    show ?thesis using a b c e by blast
  qed
qed

lemma upload_loop_ceiling:
  assumes "upload_loop cb buf d = Some d'"
    and "0 < batch_frames_max d"
    and "unat (audio_out_buffer_ptr d) + 2 * unat (num_samples d) \<le> length buf"
    and "length buf < 2 ^ 32"
  shows "\<exists>blocks ws. offered d' = offered d @ blocks \<and> accepted d' = accepted d @ ws \<and>
           length ws = length blocks \<and>
           (\<forall>i<length blocks. 0 < ws ! i \<and> 2 * unat (ws ! i) < length (blocks ! i) \<longrightarrow>
              batch_frames_max d' \<le> ws ! i \<and>
              (\<forall>j<length blocks. i < j \<longrightarrow> length (blocks ! j) \<le> 2 * unat (ws ! i)))"
  using assms
proof (induction "unat (num_samples d)" arbitrary: d rule: less_induct)
  case less
  show ?case
  proof (cases "0 < num_samples d")
    case False
    then have z: "num_samples d = 0" by (simp add: word_gt_0)
    then have "upload_loop cb buf d = Some d" by (subst upload_loop.simps) simp
    then have "d' = d" using less.prems(1) by simp
    then show ?thesis by simp
  next
    case True
    let ?d1 = "upload_loop_step cb buf d"
    let ?tw = "samples_to_write d"
    let ?block = "take (2 * unat ?tw) (drop (unat (audio_out_buffer_ptr d)) buf)"
    let ?w = "fst (cb (host d) ?block ?tw)"
    have b32: "unat (audio_out_buffer_ptr d) + 2 * unat (num_samples d) < 2 ^ 32"
      using less.prems(3,4) by simp
    have m: "unat (num_samples ?d1) < unat (num_samples d)"
      by (rule step_measure [OF less.prems(2) True])
    have p: "0 < batch_frames_max ?d1" by (rule step_max(1) [OF less.prems(2)])
    have run: "upload_loop cb buf ?d1 = Some d'"
      using less.prems(1) True by (subst (asm) upload_loop.simps) simp
    have twn: "unat ?tw \<le> unat (num_samples d)"
      using samples_to_write_le(1) [of d] by (simp add: word_le_nat_alt)
    have n1: "unat (num_samples ?d1) = unat (num_samples d) - unat ?tw"
      unfolding step_fields by (rule u_sub [OF samples_to_write_le(1)])
    have sh: "unat (push_bit 1 ?tw) = 2 * unat ?tw"
      using twn b32 by (intro u_shl1) simp
    have p1: "unat (audio_out_buffer_ptr ?d1) = unat (audio_out_buffer_ptr d) + 2 * unat ?tw"
      unfolding step_fields using sh twn b32 by (subst u_add) simp_all
    have b1: "unat (audio_out_buffer_ptr ?d1) + 2 * unat (num_samples ?d1) \<le> length buf"
      using p1 n1 twn less.prems(3) by simp
    have b1': "unat (audio_out_buffer_ptr ?d1) + 2 * unat (num_samples ?d1) < 2 ^ 32"
      using b1 less.prems(4) by simp
    have lb: "length ?block = 2 * unat ?tw"
      using twn less.prems(3) by simp
    from less.hyps [OF m run p b1 less.prems(4)] obtain blocks ws where
      bl: "offered d' = offered ?d1 @ blocks" "accepted d' = accepted ?d1 @ ws"
        "length ws = length blocks"
        "\<forall>i<length blocks. 0 < ws ! i \<and> 2 * unat (ws ! i) < length (blocks ! i) \<longrightarrow>
              batch_frames_max d' \<le> ws ! i \<and>
              (\<forall>j<length blocks. i < j \<longrightarrow> length (blocks ! j) \<le> 2 * unat (ws ! i))"
      by blast
    from upload_loop_offers_all [OF run p b1'] bl(1) have small:
      "\<forall>b \<in> set blocks. length b \<le> 2 * unat (batch_frames_max ?d1)"
      by auto
    from upload_loop_terminates [OF p, of cb buf] run have mono:
      "batch_frames_max d' \<le> batch_frames_max ?d1" by auto
    have a: "offered d' = offered d @ (?block # blocks)"
      using bl(1) by (simp add: step_fields)
    have c: "accepted d' = accepted d @ (?w # ws)"
      using bl(2) by (simp add: step_fields)
    have first: "batch_frames_max d' \<le> ?w \<and> (\<forall>b \<in> set blocks. length b \<le> 2 * unat ?w)"
      if wp: "0 < ?w" and ws: "2 * unat ?w < length ?block"
    proof -
      have "?w < ?tw" using ws lb by (simp add: word_less_nat_alt)
      from step_ceiling [of cb d buf, OF wp this]
      have "batch_frames_max ?d1 = ?w" .
      then show ?thesis using mono small by simp
    qed
    have e: "\<forall>i<length (?block # blocks).
        0 < (?w # ws) ! i \<and> 2 * unat ((?w # ws) ! i) < length ((?block # blocks) ! i) \<longrightarrow>
              batch_frames_max d' \<le> (?w # ws) ! i \<and>
              (\<forall>j<length (?block # blocks). i < j \<longrightarrow>
                  length ((?block # blocks) ! j) \<le> 2 * unat ((?w # ws) ! i))"
    proof (intro allI impI)
      fix i
      assume i: "i < length (?block # blocks)"
        and h: "0 < (?w # ws) ! i \<and> 2 * unat ((?w # ws) ! i) < length ((?block # blocks) ! i)"
      show "batch_frames_max d' \<le> (?w # ws) ! i \<and>
              (\<forall>j<length (?block # blocks). i < j \<longrightarrow>
                  length ((?block # blocks) ! j) \<le> 2 * unat ((?w # ws) ! i))"
      proof (cases i)
        case 0
        from h 0 have "0 < ?w" "2 * unat ?w < length ?block" by simp_all
        from first [OF this] have f: "batch_frames_max d' \<le> ?w"
          "\<forall>b \<in> set blocks. length b \<le> 2 * unat ?w" by simp_all
        have "length ((?block # blocks) ! j) \<le> 2 * unat ?w"
          if jl: "j < length (?block # blocks)" and jp: "0 < j" for j
        proof -
          obtain j' where j': "j = Suc j'" using jp by (cases j) simp_all
          then have "blocks ! j' \<in> set blocks" using jl by simp
          then show ?thesis using f(2) j' by simp
        qed
        then show ?thesis using f(1) 0 by simp
      next
        case (Suc i')
        then have i': "i' < length blocks" using i by simp
        from h Suc have "0 < ws ! i' \<and> 2 * unat (ws ! i') < length (blocks ! i')" by simp
        with bl(4) i' have g: "batch_frames_max d' \<le> ws ! i'"
          "\<forall>j<length blocks. i' < j \<longrightarrow> length (blocks ! j) \<le> 2 * unat (ws ! i')"
          by blast+
        have "length ((?block # blocks) ! j) \<le> 2 * unat (ws ! i')"
          if jl: "j < length (?block # blocks)" and jp: "Suc i' < j" for j
        proof -
          obtain j' where j': "j = Suc j'" using jp by (cases j) simp_all
          then have "j' < length blocks" "i' < j'" using jl jp by simp_all
          then show ?thesis using g(2) j' by simp
        qed
        then show ?thesis using g(1) Suc by simp
      qed
    qed
    have l: "length (?w # ws) = length (?block # blocks)" using bl(3) by simp
    show ?thesis using a c l e by blast
  qed
qed

lemma upload_drains_buffer:
  assumes inv: "audio_out_inv st" and mx: "0 < audio_batch_frames_max st"
  shows "\<exists>st' d. audio_upload_samples cb False st h = Some (st', d) \<and>
           concat (offered d)
             = take (2 * (unat (audio_out_buffer_pos st) div 2)) (audio_out_buffer st)"
proof -
  let ?d0 = "\<lparr>num_samples = drop_bit 1 (audio_out_buffer_pos st), audio_out_buffer_ptr = 0,
               batch_frames_max = audio_batch_frames_max st, host = h, offered = [], accepted = []\<rparr>"
  let ?buf = "audio_out_buffer st"
  have len: "length ?buf = unat (audio_out_buffer_size st)"
    and ple: "unat (audio_out_buffer_pos st) \<le> unat (audio_out_buffer_size st)"
    using inv by (simp_all add: audio_out_inv_def word_le_nat_alt)
  have l32: "length ?buf < 2 ^ 32"
    unfolding len using unsigned_less [of "audio_out_buffer_size st"] by simp
  have n0: "unat (num_samples ?d0) = unat (audio_out_buffer_pos st) div 2"
    using u_shr1 [of "audio_out_buffer_pos st"] by simp
  have p0: "0 < batch_frames_max ?d0" using mx by simp
  have b0: "unat (audio_out_buffer_ptr ?d0) + 2 * unat (num_samples ?d0) < 2 ^ 32"
    unfolding n0 using ple len l32 by simp
  from upload_loop_terminates [OF p0, of cb ?buf] obtain d where
    run: "upload_loop cb ?buf ?d0 = Some d" by blast
  from upload_loop_offers_all [OF run p0 b0] have
    all: "concat (offered d) = take (2 * (unat (audio_out_buffer_pos st) div 2)) ?buf"
    unfolding n0 by auto
  have "audio_upload_samples cb False st h =
      Some (st\<lparr>audio_out_buffer_pos := 0, audio_batch_frames_max := batch_frames_max d\<rparr>, d)"
    using run by (simp add: audio_upload_samples_def Let_def)
  then show ?thesis using all by blast
qed

subsection \<open>Claim C5: growth preserves what was written\<close>

text \<open>
  The initial state and the state after \<^verbatim>\<open>audio_out_buffer_init\<close> satisfy the invariant,
  and the drain keeps it, so the theorem below applies after every cursor reset of a session.
\<close>

lemma audio_out_static_inv: "audio_out_inv audio_out_static"
  by (simp add: audio_out_inv_def audio_out_static_def)

lemma audio_out_buffer_init_inv:
  assumes "unat samples_per_frame < 2 ^ 28"
  shows "audio_out_inv (audio_out_buffer_init fresh samples_per_frame)"
proof -
  define s1 where "s1 = push_bit 1 (samples_per_frame + 1)"
  define s2 where "s2 = push_bit 1 s1"
  have a: "unat (samples_per_frame + 1) = unat samples_per_frame + 1"
    using assms by (subst u_add) simp_all
  have b: "unat s1 = 2 * (unat samples_per_frame + 1)"
    unfolding s1_def using assms a by (subst u_shl1) simp_all
  have c: "unat s2 = 4 * (unat samples_per_frame + 1)"
    unfolding s2_def using assms b by (subst u_shl1) simp_all
  have "unat s2 < 2 ^ 31" using c assms by simp
  then have "length (malloc_int16 fresh (s2 * sizeof_int16_t)) = unat s2"
    by (rule length_malloc_int16)
  then show ?thesis
    by (simp add: audio_out_inv_def audio_out_buffer_init_def Let_def s1_def s2_def)
qed

lemma audio_upload_samples_inv:
  assumes "audio_upload_samples cb muted st h = Some (st', d)" and "audio_out_inv st"
  shows "audio_out_inv st' \<and> audio_out_buffer_pos st' = 0 \<and>
         audio_out_buffer st' = audio_out_buffer st \<and>
         audio_out_buffer_size st' = audio_out_buffer_size st"
  using assms
  by (auto simp add: audio_upload_samples_def audio_out_inv_def Let_def
      split: if_splits option.splits)

text \<open>
  Claim C5, as the code has it. From a state whose cursor was reset
  (\<^verbatim>\<open>audio_out_buffer_pos = 0\<close>), every sequence of \<^verbatim>\<open>audio_out_buffer_write\<close> calls stays
  inside the allocated block, and afterwards the block has the length that
  \<^verbatim>\<open>audio_out_buffer_size\<close> says, the cursor lies inside it, and the cells below the cursor
  are exactly the concatenation of all samples written. A further write that finds the
  capacity insufficient replaces the block by one that is longer than the old block plus the
  deficit \<^verbatim>\<open>(num_samples - buffer_capacity) << 1\<close>, and still holds everything written. The
  drain that follows, when audio forwarding is not muted, offers exactly the concatenation to
  the host sink, whatever the sink answers. Each write passes \<^verbatim>\<open>num_samples\<close> frames, that
  is \<open>2 * num_samples\<close> cells; sizes are bounded as said above.
\<close>

theorem audio_out_buffer_write_keeps_content:
  assumes inv: "audio_out_inv st"
    and reset: "audio_out_buffer_pos st = 0"
    and sz: "unat (audio_out_buffer_size st) < 2 ^ 31"
    and total: "length (concat (map fst ws)) < 2 ^ 30"
    and wf: "\<forall>(samples, n) \<in> set ws. length samples = 2 * unat n"
    and mx: "0 < audio_batch_frames_max st"
  shows "\<exists>st'. audio_out_buffer_writes fresh ws st = Some st' \<and>
           audio_out_inv st' \<and>
           unat (audio_out_buffer_pos st') = length (concat (map fst ws)) \<and>
           take (unat (audio_out_buffer_pos st')) (audio_out_buffer st') = concat (map fst ws) \<and>
           (\<exists>st'' d. audio_upload_samples cb False st' h = Some (st'', d) \<and>
                      concat (offered d) = concat (map fst ws)) \<and>
           (\<forall>samples n.
              length samples = 2 * unat n \<and>
              length (concat (map fst ws)) + 2 * unat n < 2 ^ 30 \<and>
              drop_bit 1 (audio_out_buffer_size st' - audio_out_buffer_pos st') < n \<longrightarrow>
              (\<exists>st1. audio_out_buffer_write fresh samples n st' = Some st1 \<and>
                     audio_out_inv st1 \<and>
                     length (audio_out_buffer st')
                       + 2 * (unat n - unat (drop_bit 1 (audio_out_buffer_size st' - audio_out_buffer_pos st')))
                       < length (audio_out_buffer st1) \<and>
                     take (unat (audio_out_buffer_pos st1)) (audio_out_buffer st1)
                       = concat (map fst ws) @ samples))"
proof -
  have fit: "unat (audio_out_buffer_pos st) + length (concat (map fst ws)) < 2 ^ 30"
    using total reset by simp
  from writes_props [OF inv sz fit wf, of fresh] obtain st' where
    w: "audio_out_buffer_writes fresh ws st = Some st'"
      "audio_out_inv st'"
      "unat (audio_out_buffer_pos st') = unat (audio_out_buffer_pos st) + length (concat (map fst ws))"
      "take (unat (audio_out_buffer_pos st')) (audio_out_buffer st')
         = take (unat (audio_out_buffer_pos st)) (audio_out_buffer st) @ concat (map fst ws)"
      "audio_batch_frames_max st' = audio_batch_frames_max st"
      "unat (audio_out_buffer_size st') < 2 ^ 31"
    by blast
  have pos: "unat (audio_out_buffer_pos st') = length (concat (map fst ws))"
    using w(3) reset by simp
  have content: "take (unat (audio_out_buffer_pos st')) (audio_out_buffer st') = concat (map fst ws)"
    using w(4) reset by simp
  have even: "2 * (unat (audio_out_buffer_pos st') div 2) = unat (audio_out_buffer_pos st')"
  proof -
    have "even (length (concat (map fst ws)))" using wf
      by (induction ws) auto
    then show ?thesis using pos by simp
  qed
  have mx': "0 < audio_batch_frames_max st'" using mx w(5) by simp
  from upload_drains_buffer [OF w(2) mx', of cb h] obtain st'' d where
    "audio_upload_samples cb False st' h = Some (st'', d)"
    "concat (offered d) = take (2 * (unat (audio_out_buffer_pos st') div 2)) (audio_out_buffer st')"
    by blast
  then have drained: "\<exists>st'' d. audio_upload_samples cb False st' h = Some (st'', d)
                \<and> concat (offered d) = concat (map fst ws)"
    unfolding even content by blast
  have next_write: "\<exists>st1. audio_out_buffer_write fresh samples n st' = Some st1 \<and>
                     audio_out_inv st1 \<and>
                     length (audio_out_buffer st')
                       + 2 * (unat n - unat (drop_bit 1 (audio_out_buffer_size st' - audio_out_buffer_pos st')))
                       < length (audio_out_buffer st1) \<and>
                     take (unat (audio_out_buffer_pos st1)) (audio_out_buffer st1)
                       = concat (map fst ws) @ samples"
    if a: "length samples = 2 * unat n \<and>
           length (concat (map fst ws)) + 2 * unat n < 2 ^ 30 \<and>
           drop_bit 1 (audio_out_buffer_size st' - audio_out_buffer_pos st') < n"
    for samples n
  proof -
    have fit1: "unat (audio_out_buffer_pos st') + 2 * unat n < 2 ^ 30"
      using a pos by simp
    have wf1: "length samples = 2 * unat n" using a by simp
    from write_props [OF w(2) w(6) fit1 wf1, of fresh] a content
    show ?thesis by auto
  qed
  show ?thesis
    using w(1) w(2) pos content drained next_write by blast
qed

text \<open>
  The scenario of the specification: from the empty buffer, write 5 frames (the block gets 15
  cells), then 4 more, which finds room for 2 frames only and forces a second growth (to 29
  cells, more than \<open>15 + 4\<close>), then drain to a sink that takes 2 frames of the first batch.
\<close>

theorem audio_out_buffer_write_keeps_content_witness:
  "audio_out_inv audio_out_static
   \<and> audio_out_buffer_pos audio_out_static = 0
   \<and> audio_out_buffer_writes zero_fill [([1, 2, 3, 4, 5, 6, 7, 8, 9, 10], 5)] audio_out_static
       = Some \<lparr>audio_out_buffer = [1, 2, 3, 4, 5, 6, 7, 8, 9, 10, 0, 0, 0, 0, 0],
               audio_out_buffer_size = 15, audio_out_buffer_pos = 10, audio_batch_frames_max = 65536\<rparr>
   \<and> drop_bit 1 ((15 :: size_t) - 10) < 4
   \<and> audio_out_buffer_write zero_fill [11, 12, 13, 14, 15, 16, 17, 18] 4
         \<lparr>audio_out_buffer = [1, 2, 3, 4, 5, 6, 7, 8, 9, 10, 0, 0, 0, 0, 0],
          audio_out_buffer_size = 15, audio_out_buffer_pos = 10, audio_batch_frames_max = 65536\<rparr>
       = Some \<lparr>audio_out_buffer = [1, 2, 3, 4, 5, 6, 7, 8, 9, 10, 11, 12, 13, 14, 15, 16, 17, 18,
                                    0, 0, 0, 0, 0, 0, 0, 0, 0, 0, 0],
               audio_out_buffer_size = 29, audio_out_buffer_pos = 18, audio_batch_frames_max = 65536\<rparr>
   \<and> audio_out_inv \<lparr>audio_out_buffer = [1, 2, 3, 4, 5, 6, 7, 8, 9, 10, 11, 12, 13, 14, 15, 16, 17, 18,
                                    0, 0, 0, 0, 0, 0, 0, 0, 0, 0, 0],
               audio_out_buffer_size = 29, audio_out_buffer_pos = 18, audio_batch_frames_max = 65536\<rparr>
   \<and> (15 :: nat) + 2 * (4 - 2) < 29
   \<and> audio_out_buffer_writes zero_fill
         [([1, 2, 3, 4, 5, 6, 7, 8, 9, 10], 5), ([11, 12, 13, 14, 15, 16, 17, 18], 4)] audio_out_static
       = Some \<lparr>audio_out_buffer = [1, 2, 3, 4, 5, 6, 7, 8, 9, 10, 11, 12, 13, 14, 15, 16, 17, 18,
                                    0, 0, 0, 0, 0, 0, 0, 0, 0, 0, 0],
               audio_out_buffer_size = 29, audio_out_buffer_pos = 18, audio_batch_frames_max = 65536\<rparr>
   \<and> (\<exists>st'' d. audio_upload_samples sink_throttles_once False
           \<lparr>audio_out_buffer = [1, 2, 3, 4, 5, 6, 7, 8, 9, 10, 11, 12, 13, 14, 15, 16, 17, 18,
                                0, 0, 0, 0, 0, 0, 0, 0, 0, 0, 0],
            audio_out_buffer_size = 29, audio_out_buffer_pos = 18, audio_batch_frames_max = 65536\<rparr> 0
          = Some (st'', d)
        \<and> concat (offered d) = [1, 2, 3, 4, 5, 6, 7, 8, 9, 10, 11, 12, 13, 14, 15, 16, 17, 18])"
proof -
  let ?s1 = "[1, 2, 3, 4, 5, 6, 7, 8, 9, 10] :: int16_t list"
  let ?s2 = "[11, 12, 13, 14, 15, 16, 17, 18] :: int16_t list"
  let ?S1 = "\<lparr>audio_out_buffer = [1, 2, 3, 4, 5, 6, 7, 8, 9, 10, 0, 0, 0, 0, 0 :: int16_t],
               audio_out_buffer_size = 15, audio_out_buffer_pos = 10, audio_batch_frames_max = 65536\<rparr>"
  let ?S2 = "\<lparr>audio_out_buffer = [1, 2, 3, 4, 5, 6, 7, 8, 9, 10, 11, 12, 13, 14, 15, 16, 17, 18,
                                    0, 0, 0, 0, 0, 0, 0, 0, 0, 0, 0 :: int16_t],
               audio_out_buffer_size = 29, audio_out_buffer_pos = 18, audio_batch_frames_max = 65536\<rparr>"
  have e1: "audio_out_buffer_writes zero_fill [(?s1, 5)] audio_out_static = Some ?S1"
    by code_simp
  have e2: "audio_out_buffer_writes zero_fill [(?s1, 5), (?s2, 4)] audio_out_static = Some ?S2"
    by code_simp
  have h1: "audio_out_inv audio_out_static" by (rule audio_out_static_inv)
  have h2: "audio_out_buffer_pos audio_out_static = 0" by (simp add: audio_out_static_def)
  have h3: "unat (audio_out_buffer_size audio_out_static) < 2 ^ 31" by (simp add: audio_out_static_def)
  have h6: "0 < audio_batch_frames_max audio_out_static" by (simp add: audio_out_static_def)
  have a4: "length (concat (map fst [(?s1, 5 :: size_t)])) < 2 ^ 30" by simp
  have a5: "\<forall>(samples, n) \<in> set [(?s1, 5 :: size_t)]. length samples = 2 * unat n" by simp
  have b4: "length (concat (map fst [(?s1, 5 :: size_t), (?s2, 4)])) < 2 ^ 30" by simp
  have b5: "\<forall>(samples, n) \<in> set [(?s1, 5 :: size_t), (?s2, 4)]. length samples = 2 * unat n" by simp
  have short: "drop_bit 1 ((15 :: size_t) - 10) < 4" by simp
  have cap: "unat (drop_bit 1 ((15 :: size_t) - 10)) = 2" by simp
  from audio_out_buffer_write_keeps_content [OF h1 h2 h3 a4 a5 h6, of zero_fill sink_throttles_once 0]
  have "\<forall>samples n.
              length samples = 2 * unat n \<and>
              length (concat (map fst [(?s1, 5 :: size_t)])) + 2 * unat n < 2 ^ 30 \<and>
              drop_bit 1 (audio_out_buffer_size ?S1 - audio_out_buffer_pos ?S1) < n \<longrightarrow>
              (\<exists>st1. audio_out_buffer_write zero_fill samples n ?S1 = Some st1 \<and>
                     audio_out_inv st1 \<and>
                     length (audio_out_buffer ?S1)
                       + 2 * (unat n - unat (drop_bit 1 (audio_out_buffer_size ?S1 - audio_out_buffer_pos ?S1)))
                       < length (audio_out_buffer st1) \<and>
                     take (unat (audio_out_buffer_pos st1)) (audio_out_buffer st1)
                       = concat (map fst [(?s1, 5 :: size_t)]) @ samples)"
    unfolding e1 by simp
  from this [rule_format, of ?s2 4] short obtain st1 where
    n1: "audio_out_buffer_write zero_fill ?s2 4 ?S1 = Some st1" "audio_out_inv st1"
      "length (audio_out_buffer ?S1) + 2 * (unat (4 :: size_t) - unat (drop_bit 1 ((15 :: size_t) - 10)))
         < length (audio_out_buffer st1)"
    by auto
  have e3: "audio_out_buffer_write zero_fill ?s2 4 ?S1 = Some ?S2"
    by code_simp
  have st1: "st1 = ?S2" using n1(1) unfolding e3 by simp
  have g1: "audio_out_buffer_write zero_fill ?s2 4 ?S1 = Some ?S2" using n1(1) st1 by simp
  have g2: "audio_out_inv ?S2" using n1(2) st1 by simp
  have g3: "(15 :: nat) + 2 * (4 - 2) < 29" using n1(3) unfolding st1 cap by simp
  from audio_out_buffer_write_keeps_content [OF h1 h2 h3 b4 b5 h6, of zero_fill sink_throttles_once 0]
  have g4: "\<exists>st'' d. audio_upload_samples sink_throttles_once False ?S2 0 = Some (st'', d)
        \<and> concat (offered d) = [1, 2, 3, 4, 5, 6, 7, 8, 9, 10, 11, 12, 13, 14, 15, 16, 17, 18]"
    unfolding e2 by simp
  show ?thesis using h1 h2 e1 short g1 g2 g3 e2 g4 by blast
qed

text \<open>
  Claim C5 as stated fails in its second half: what was written is not always what is
  drained. After the same two writes, a drain while audio forwarding is muted (fast-forward or
  slow motion with \<^verbatim>\<open>fast_forward_audio_enabled\<close> off, the default) resets the cursor
  without offering anything, and a drain to a sink that accepts 2 frames per call hands over
  frames 1 and 2 only: in both cases written, undelivered samples are dropped.
\<close>

theorem drain_drops_samples_counterexample:
  "audio_out_buffer_writes zero_fill
         [([1, 2, 3, 4, 5, 6, 7, 8, 9, 10], 5), ([11, 12, 13, 14, 15, 16, 17, 18], 4)] audio_out_static
       = Some \<lparr>audio_out_buffer = [1, 2, 3, 4, 5, 6, 7, 8, 9, 10, 11, 12, 13, 14, 15, 16, 17, 18,
                                    0, 0, 0, 0, 0, 0, 0, 0, 0, 0, 0],
               audio_out_buffer_size = 29, audio_out_buffer_pos = 18, audio_batch_frames_max = 65536\<rparr>
   \<and> map_option (\<lambda>(st, d). (audio_out_buffer_pos st, offered d))
         (audio_upload_samples sink_accepts_two True
            \<lparr>audio_out_buffer = [1, 2, 3, 4, 5, 6, 7, 8, 9, 10, 11, 12, 13, 14, 15, 16, 17, 18,
                                 0, 0, 0, 0, 0, 0, 0, 0, 0, 0, 0],
             audio_out_buffer_size = 29, audio_out_buffer_pos = 18, audio_batch_frames_max = 65536\<rparr> ())
       = Some (0, [])
   \<and> map_option (\<lambda>(st, d). (audio_out_buffer_pos st, delivered d))
         (audio_upload_samples sink_accepts_two False
            \<lparr>audio_out_buffer = [1, 2, 3, 4, 5, 6, 7, 8, 9, 10, 11, 12, 13, 14, 15, 16, 17, 18,
                                 0, 0, 0, 0, 0, 0, 0, 0, 0, 0, 0],
             audio_out_buffer_size = 29, audio_out_buffer_pos = 18, audio_batch_frames_max = 65536\<rparr> ())
       = Some (0, [1, 2, 3, 4])"
  by code_simp

subsection \<open>Claim C4: a sink that accepts less than it was offered\<close>

text \<open>
  Claim C4, as the code has it. When the host audio sink accepts fewer (but more than zero)
  sample frames than it was offered in one batch, the accepted size becomes the ceiling: every
  later batch of the drain is at most that large, and so is \<^verbatim>\<open>audio_batch_frames_max\<close>
  afterwards. The drain returns, resets the cursor, and has offered every buffered sample to
  the sink exactly once and in order: the loop always advances by the size offered, so the
  part of a batch that the sink did not accept is not offered again.
\<close>

theorem audio_upload_samples_adapts_ceiling:
  assumes inv: "audio_out_inv st" and mx: "0 < audio_batch_frames_max st"
  shows "\<exists>st' d. audio_upload_samples cb False st h = Some (st', d) \<and>
           audio_out_buffer_pos st' = 0 \<and>
           concat (offered d) = take (2 * (unat (audio_out_buffer_pos st) div 2)) (audio_out_buffer st) \<and>
           length (accepted d) = length (offered d) \<and>
           (\<forall>i<length (offered d).
               0 < accepted d ! i \<and> 2 * unat (accepted d ! i) < length (offered d ! i) \<longrightarrow>
               audio_batch_frames_max st' \<le> accepted d ! i \<and>
               (\<forall>j<length (offered d). i < j \<longrightarrow> length (offered d ! j) \<le> 2 * unat (accepted d ! i)))"
proof -
  let ?d0 = "\<lparr>num_samples = drop_bit 1 (audio_out_buffer_pos st), audio_out_buffer_ptr = 0,
               batch_frames_max = audio_batch_frames_max st, host = h, offered = [], accepted = []\<rparr>"
  let ?buf = "audio_out_buffer st"
  have len: "length ?buf = unat (audio_out_buffer_size st)"
    and ple: "unat (audio_out_buffer_pos st) \<le> unat (audio_out_buffer_size st)"
    using inv by (simp_all add: audio_out_inv_def word_le_nat_alt)
  have l32: "length ?buf < 2 ^ 32" unfolding len using unsigned_less [of "audio_out_buffer_size st"] by simp
  have n0: "unat (num_samples ?d0) = unat (audio_out_buffer_pos st) div 2" using u_shr1 [of "audio_out_buffer_pos st"] by simp
  have p0: "0 < batch_frames_max ?d0" using mx by simp
  have b0: "unat (audio_out_buffer_ptr ?d0) + 2 * unat (num_samples ?d0) \<le> length ?buf"
    unfolding n0 len using ple by simp
  have b0': "unat (audio_out_buffer_ptr ?d0) + 2 * unat (num_samples ?d0) < 2 ^ 32"
    using b0 l32 by simp
  from upload_loop_terminates [OF p0, of cb ?buf] obtain d where
    run: "upload_loop cb ?buf ?d0 = Some d" by blast
  from upload_loop_offers_all [OF run p0 b0'] have
    all: "concat (offered d) = take (2 * (unat (audio_out_buffer_pos st) div 2)) ?buf"
    unfolding n0 by auto
  from upload_loop_ceiling [OF run p0 b0 l32] have
    ceil: "length (accepted d) = length (offered d)"
      "\<forall>i<length (offered d).
               0 < accepted d ! i \<and> 2 * unat (accepted d ! i) < length (offered d ! i) \<longrightarrow>
               batch_frames_max d \<le> accepted d ! i \<and>
               (\<forall>j<length (offered d). i < j \<longrightarrow> length (offered d ! j) \<le> 2 * unat (accepted d ! i))"
    by auto
  have res: "audio_upload_samples cb False st h =
      Some (st\<lparr>audio_out_buffer_pos := 0, audio_batch_frames_max := batch_frames_max d\<rparr>, d)"
    using run by (simp add: audio_upload_samples_def Let_def)
  show ?thesis
    unfolding res using all ceil by simp
qed

text \<open>
  Six buffered frames, ceiling 4, and a sink that takes 2 frames of the first batch: the batches
  are 4 and 2 frames and the ceiling ends at 2.
\<close>

theorem audio_upload_samples_adapts_ceiling_witness:
  "audio_out_inv \<lparr>audio_out_buffer = [1, 2, 3, 4, 5, 6, 7, 8, 9, 10, 11, 12],
       audio_out_buffer_size = 12, audio_out_buffer_pos = 12, audio_batch_frames_max = 4\<rparr>
   \<and> (0 :: size_t) < 4
   \<and> audio_upload_samples sink_throttles_once False
        \<lparr>audio_out_buffer = [1, 2, 3, 4, 5, 6, 7, 8, 9, 10, 11, 12],
         audio_out_buffer_size = 12, audio_out_buffer_pos = 12, audio_batch_frames_max = 4\<rparr> 0
      = Some (\<lparr>audio_out_buffer = [1, 2, 3, 4, 5, 6, 7, 8, 9, 10, 11, 12],
               audio_out_buffer_size = 12, audio_out_buffer_pos = 0, audio_batch_frames_max = 2\<rparr>,
              \<lparr>num_samples = 0, audio_out_buffer_ptr = 12, batch_frames_max = 2, host = 2,
               offered = [[1, 2, 3, 4, 5, 6, 7, 8], [9, 10, 11, 12]], accepted = [2, 2]\<rparr>)
   \<and> (\<exists>st' d. audio_upload_samples sink_throttles_once False
        \<lparr>audio_out_buffer = [1, 2, 3, 4, 5, 6, 7, 8, 9, 10, 11, 12],
         audio_out_buffer_size = 12, audio_out_buffer_pos = 12, audio_batch_frames_max = 4\<rparr> 0
          = Some (st', d) \<and>
        audio_out_buffer_pos st' = 0 \<and>
        concat (offered d) = [1, 2, 3, 4, 5, 6, 7, 8, 9, 10, 11, 12] \<and>
        (\<forall>i<length (offered d).
               0 < accepted d ! i \<and> 2 * unat (accepted d ! i) < length (offered d ! i) \<longrightarrow>
               audio_batch_frames_max st' \<le> accepted d ! i \<and>
               (\<forall>j<length (offered d). i < j \<longrightarrow> length (offered d ! j) \<le> 2 * unat (accepted d ! i))))"
proof -
  let ?S = "\<lparr>audio_out_buffer = [1, 2, 3, 4, 5, 6, 7, 8, 9, 10, 11, 12 :: int16_t],
       audio_out_buffer_size = 12, audio_out_buffer_pos = 12, audio_batch_frames_max = 4\<rparr>"
  have i: "audio_out_inv ?S" by (simp add: audio_out_inv_def)
  have m: "0 < audio_batch_frames_max ?S" by simp
  have e: "audio_upload_samples sink_throttles_once False ?S 0
      = Some (\<lparr>audio_out_buffer = [1, 2, 3, 4, 5, 6, 7, 8, 9, 10, 11, 12],
               audio_out_buffer_size = 12, audio_out_buffer_pos = 0, audio_batch_frames_max = 2\<rparr>,
              \<lparr>num_samples = 0, audio_out_buffer_ptr = 12, batch_frames_max = 2, host = 2,
               offered = [[1, 2, 3, 4, 5, 6, 7, 8], [9, 10, 11, 12]], accepted = [2, 2]\<rparr>)"
    by (simp add: audio_upload_samples_def upload_loop.simps upload_loop_step_def
        samples_to_write_def sink_throttles_once_def Let_def)
  from audio_upload_samples_adapts_ceiling [OF i m, of sink_throttles_once 0]
  show ?thesis using i e by simp
qed

text \<open>
  Claim C4 as stated fails: the samples that the sink did not accept are not retried. With four
  buffered frames and a sink that accepts 2 frames per call, the drain makes a single call,
  the sink ends up with frames 1 and 2 only, and the cursor is reset over frames 3 and 4.
\<close>

theorem audio_upload_samples_no_retry_counterexample:
  "audio_upload_samples sink_accepts_two False
        \<lparr>audio_out_buffer = [1, 2, 3, 4, 5, 6, 7, 8],
         audio_out_buffer_size = 8, audio_out_buffer_pos = 8, audio_batch_frames_max = 65536\<rparr> ()
      = Some (\<lparr>audio_out_buffer = [1, 2, 3, 4, 5, 6, 7, 8],
               audio_out_buffer_size = 8, audio_out_buffer_pos = 0, audio_batch_frames_max = 2\<rparr>,
              \<lparr>num_samples = 0, audio_out_buffer_ptr = 8, batch_frames_max = 2, host = (),
               offered = [[1, 2, 3, 4, 5, 6, 7, 8]], accepted = [2]\<rparr>)
   \<and> delivered \<lparr>num_samples = 0, audio_out_buffer_ptr = 8, batch_frames_max = 2, host = (),
               offered = [[1, 2, 3, 4, 5, 6, 7, 8]], accepted = [2]\<rparr> = [1, 2, 3, 4]
   \<and> delivered \<lparr>num_samples = 0, audio_out_buffer_ptr = 8, batch_frames_max = 2, host = (),
               offered = [[1, 2, 3, 4, 5, 6, 7, 8]], accepted = [2]\<rparr> \<noteq> [1, 2, 3, 4, 5, 6, 7, 8]"
  by (simp add: audio_upload_samples_def upload_loop.simps upload_loop_step_def
        samples_to_write_def sink_accepts_two_def delivered_def Let_def)

subsection \<open>The ceiling in reachable states\<close>

lemma max_resize:
  "audio_out_buffer_resize fresh n st = Some st1 \<Longrightarrow>
   audio_batch_frames_max st1 = audio_batch_frames_max st"
  by (auto simp add: audio_out_buffer_resize_def Let_def split: if_splits option.splits)

lemma max_write:
  "audio_out_buffer_write fresh samples n st = Some st' \<Longrightarrow>
   audio_batch_frames_max st' = audio_batch_frames_max st"
  by (auto simp add: audio_out_buffer_write_def dest!: max_resize split: option.splits)

lemma max_read_blipper:
  "audio_out_buffer_read_blipper fresh resampled n st = Some st' \<Longrightarrow>
   audio_batch_frames_max st' = audio_batch_frames_max st"
  by (auto simp add: audio_out_buffer_read_blipper_def dest!: max_resize split: option.splits)

lemma upload_total:
  assumes "0 < audio_batch_frames_max st"
  shows "\<exists>st' d. audio_upload_samples cb muted st h = Some (st', d) \<and>
           0 < audio_batch_frames_max st' \<and> audio_out_buffer_pos st' = 0"
proof (cases muted)
  case True
  then show ?thesis using assms by (simp add: audio_upload_samples_def Let_def)
next
  case False
  let ?d0 = "\<lparr>num_samples = drop_bit 1 (audio_out_buffer_pos st), audio_out_buffer_ptr = 0,
               batch_frames_max = audio_batch_frames_max st, host = h, offered = [], accepted = []\<rparr>"
  have "0 < batch_frames_max ?d0" using assms by simp
  from upload_loop_terminates [OF this, of cb "audio_out_buffer st"] obtain d' where
    "upload_loop cb (audio_out_buffer st) ?d0 = Some d'" "0 < batch_frames_max d'" by blast
  then show ?thesis using False by (simp add: audio_upload_samples_def Let_def)
qed

lemma upload_max_pos:
  assumes "audio_upload_samples cb muted st h = Some (st', d)" "0 < audio_batch_frames_max st"
  shows "0 < audio_batch_frames_max st'"
  using upload_total [OF assms(2), of cb muted h] assms(1) by auto

subsection \<open>Claim C8: the batch ceiling stays positive and the drain returns\<close>

text \<open>
  Claim C8. In every reachable state of the audio globals \<^verbatim>\<open>audio_batch_frames_max\<close> is
  strictly positive (it is \<open>2^16\<close> initially and after init and deinit, and the drain
  assigns it only a value \<open>samples_written\<close> with \<open>0 < samples_written < samples_to_write\<close>),
  and from every such state \<^verbatim>\<open>audio_upload_samples\<close> returns, for every host sink state
  and whether or not audio is muted.
\<close>

theorem audio_batch_frames_max_positive:
  assumes "audio_reachable cb st"
  shows "0 < audio_batch_frames_max st \<and>
         (\<forall>muted h. \<exists>st' d. audio_upload_samples cb muted st h = Some (st', d))"
proof -
  have pos: "0 < audio_batch_frames_max st"
    using assms
  proof (induction rule: audio_reachable.induct)
    case reach_static
    show ?case by (simp add: audio_out_static_def)
  next
    case (reach_init st fresh samples_per_frame)
    show ?case by (simp add: audio_out_buffer_init_def Let_def)
  next
    case (reach_deinit st)
    show ?case by (simp add: audio_out_buffer_deinit_def)
  next
    case (reach_write st fresh samples n st')
    then show ?case by (simp add: max_write)
  next
    case (reach_read_blipper st fresh resampled n st')
    then show ?case by (simp add: max_read_blipper)
  next
    case (reach_upload st muted h st' d)
    show ?case by (rule upload_max_pos [OF reach_upload.hyps(2) reach_upload.IH])
  qed
  show ?thesis using pos upload_total [OF pos, of cb] by blast
qed

text \<open>A reachable state: three frames written into the buffer of the static initialisers.\<close>

theorem audio_batch_frames_max_positive_witness:
  "audio_out_buffer_write (\<lambda>_. 0) [1, 2, 3, 4, 5, 6] 3 audio_out_static
     = Some \<lparr>audio_out_buffer = [1, 2, 3, 4, 5, 6, 0, 0, 0], audio_out_buffer_size = 9,
             audio_out_buffer_pos = 6, audio_batch_frames_max = 65536\<rparr>
   \<and> audio_reachable (\<lambda>h b n. (2 :: size_t, h :: unit))
         \<lparr>audio_out_buffer = [1, 2, 3, 4, 5, 6, 0, 0, 0], audio_out_buffer_size = 9,
          audio_out_buffer_pos = 6, audio_batch_frames_max = 65536\<rparr>
   \<and> 0 < audio_batch_frames_max
         \<lparr>audio_out_buffer = [1, 2, 3, 4, 5, 6, 0, 0, 0], audio_out_buffer_size = 9,
          audio_out_buffer_pos = 6, audio_batch_frames_max = 65536\<rparr>
   \<and> (\<exists>st' d. audio_upload_samples (\<lambda>h b n. (2 :: size_t, h :: unit)) False
          \<lparr>audio_out_buffer = [1, 2, 3, 4, 5, 6, 0, 0, 0], audio_out_buffer_size = 9,
           audio_out_buffer_pos = 6, audio_batch_frames_max = 65536\<rparr> () = Some (st', d))"
proof -
  let ?S = "\<lparr>audio_out_buffer = [1, 2, 3, 4, 5, 6, 0, 0, 0 :: int16_t], audio_out_buffer_size = 9,
             audio_out_buffer_pos = 6, audio_batch_frames_max = 65536\<rparr>"
  have w: "audio_out_buffer_write (\<lambda>_. 0) [1, 2, 3, 4, 5, 6] 3 audio_out_static = Some ?S"
    by code_simp
  have r: "audio_reachable (\<lambda>h b n. (2 :: size_t, h :: unit)) ?S"
    by (rule reach_write [OF reach_static w])
  from audio_batch_frames_max_positive [OF r] r w show ?thesis by blast
qed

subsection \<open>The run loop on frame segments\<close>

text \<open>
  Input handling leaves the pacing counters, the traces and the splash variables alone. On a
  script that starts with a frame segment the \<^verbatim>\<open>while\<close> loop returns after consuming
  exactly that segment.
\<close>

lemma update_input_state_pacing [simp]:
  "samples_count (update_input_state cfg gb pad g) = samples_count g"
  "frames_count (update_input_state cfg gb pad g) = frames_count g"
  "video_out (update_input_state cfg gb pad g) = video_out g"
  "audio_events (update_input_state cfg gb pad g) = audio_events g"
  "core_script (update_input_state cfg gb pad g) = core_script g"
  "runfor_log (update_input_state cfg gb pad g) = runfor_log g"
  "frames_completed (update_input_state cfg gb pad g) = frames_completed g"
  "sf2000_splash_shown (update_input_state cfg gb pad g) = sf2000_splash_shown g"
  "sf2000_splash_timer (update_input_state cfg gb pad g) = sf2000_splash_timer g"
  by (simp_all add: update_input_state_def select_a_chord_def select_b_chord_def
      set_fastforward_override_def Let_def)

lemma run_until_frame_pre:
  assumes "\<forall>e \<in> set pre. fst e = - 1" and "r \<noteq> - 1"
    and "core_script g = pre @ (r, n) # rest"
  shows "run_until_frame cfg fb wa g =
     Some (n, g\<lparr>samples_count := samples_count g + loop_samples pre,
                 audio_events := audio_events g @ loop_audio cfg wa pre,
                 core_script := rest,
                 runfor_log := runfor_log g @ replicate (Suc (length pre)) fb,
                 frames_completed := Suc (frames_completed g)\<rparr>)"
  using assms
proof (induction pre arbitrary: g)
  case Nil
  then show ?case
    by (subst run_until_frame.simps) (simp add: gb_runFor_def loop_samples_def loop_audio_def)
next
  case (Cons e pre)
  obtain r' n' where e: "e = (r', n')" by (cases e)
  have r': "r' = - 1" using Cons.prems(1) e by simp
  let ?g1 = "g\<lparr>core_script := pre @ (r, n) # rest, runfor_log := runfor_log g @ [fb],
               frames_completed := frames_completed g + 0\<rparr>"
  let ?g2 = "if wa then render_audio cfg n' ?g1 else ?g1"
  let ?g3 = "?g2\<lparr>samples_count := samples_count ?g2 + ucast n'\<rparr>"
  have step: "run_until_frame cfg fb wa g = run_until_frame cfg fb wa ?g3"
    using Cons.prems(3) e r'
    by (subst run_until_frame.simps) (simp add: gb_runFor_def Let_def)
  have cs: "core_script ?g3 = pre @ (r, n) # rest"
    by (simp add: render_audio_def)
  have pre: "\<forall>e \<in> set pre. fst e = - 1" using Cons.prems(1) by simp
  note ih = Cons.IH [OF pre Cons.prems(2) cs]
  show ?case
    unfolding step ih
    by (simp add: render_audio_def loop_samples_def loop_audio_def e replicate_app_Cons_same add.assoc)
qed

lemma run_until_frame_segment:
  assumes "frame_segment seg" and "core_script g = seg @ rest"
  shows "run_until_frame cfg fb wa g =
     Some (snd (last seg),
           g\<lparr>samples_count := samples_count g + loop_samples (butlast seg),
              audio_events := audio_events g @ loop_audio cfg wa (butlast seg),
              core_script := rest,
              runfor_log := runfor_log g @ replicate (length seg) fb,
              frames_completed := Suc (frames_completed g)\<rparr>)"
proof -
  have ne: "seg \<noteq> []" and l: "fst (last seg) \<noteq> - 1"
    and p: "\<forall>e \<in> set (butlast seg). fst e = - 1"
    using assms(1) by (simp_all add: frame_segment_def)
  have split: "seg = butlast seg @ [(fst (last seg), snd (last seg))]"
    using ne by simp
  have cs: "core_script g = butlast seg @ (fst (last seg), snd (last seg)) # rest"
    using assms(2) split by (metis append_Cons append_Nil append_assoc)
  have len: "Suc (length (butlast seg)) = length seg" using ne by simp
  show ?thesis
    using run_until_frame_pre [OF p l cs, of cfg fb wa] unfolding len .
qed

lemma fastforward_loop_segments:
  assumes "\<forall>seg \<in> set segs. frame_segment seg"
    and "core_script g = concat segs @ rest"
    and "iter + length segs = iterations"
  shows "\<exists>n sc log. fastforward_loop cfg iter iterations samples g =
           Some (n, g\<lparr>samples_count := sc, core_script := rest, runfor_log := log,
                      frames_completed := frames_completed g + length segs\<rparr>)"
  using assms
proof (induction segs arbitrary: iter g samples)
  case Nil
  have "fastforward_loop cfg iter iterations samples g = Some (samples, g)"
    using Nil.prems(3) by (subst fastforward_loop.simps) simp
  moreover have "g = g\<lparr>samples_count := samples_count g, core_script := rest,
      runfor_log := runfor_log g, frames_completed := frames_completed g + length ([] :: (int \<times> 32 word) list list)\<rparr>"
    using Nil.prems(2) by simp
  ultimately show ?case by metis
next
  case (Cons seg segs)
  let ?fb = "if sf2000_fastforward_state g = 2 \<and> iter \<noteq> iterations - 1 then NULL_frame else Video_buf"
  let ?g1 = "g\<lparr>samples_count := samples_count g + loop_samples (butlast seg),
              audio_events := audio_events g @ loop_audio cfg False (butlast seg),
              core_script := concat segs @ rest,
              runfor_log := runfor_log g @ replicate (length seg) ?fb,
              frames_completed := Suc (frames_completed g)\<rparr>"
  have fs: "frame_segment seg" using Cons.prems(1) by simp
  have cs: "core_script g = seg @ (concat segs @ rest)" using Cons.prems(2) by simp
  have run: "run_until_frame cfg ?fb False g = Some (snd (last seg), ?g1)"
    by (rule run_until_frame_segment [OF fs cs])
  have lt: "iter < iterations" using Cons.prems(3) by simp
  have step: "fastforward_loop cfg iter iterations samples g =
      fastforward_loop cfg (iter + 1) iterations (snd (last seg)) ?g1"
    using lt run by (subst fastforward_loop.simps) (simp add: Let_def)
  have a1: "\<forall>seg \<in> set segs. frame_segment seg" using Cons.prems(1) by simp
  have a2: "core_script ?g1 = concat segs @ rest" by simp
  have a3: "(iter + 1) + length segs = iterations" using Cons.prems(3) by simp
  from Cons.IH [OF a1 a2 a3, of "snd (last seg)"] obtain n sc log where
    r: "fastforward_loop cfg (iter + 1) iterations (snd (last seg)) ?g1 =
       Some (n, ?g1\<lparr>samples_count := sc, core_script := rest, runfor_log := log,
                      frames_completed := frames_completed ?g1 + length segs\<rparr>)"
    by blast
  have "?g1\<lparr>samples_count := sc, core_script := rest, runfor_log := log,
                      frames_completed := frames_completed ?g1 + length segs\<rparr>
      = g\<lparr>samples_count := sc, core_script := rest, runfor_log := log,
                      frames_completed := frames_completed g + length (seg # segs)\<rparr>"
    by (simp add: loop_audio_def)
  then show ?case unfolding step r by blast
qed

lemma loop_samples_snoc:
  "seg \<noteq> [] \<Longrightarrow> loop_samples seg = loop_samples (butlast seg) + ucast (snd (last seg))"
proof -
  assume "seg \<noteq> []"
  then have "seg = butlast seg @ [last seg]" by simp
  then have "loop_samples seg = loop_samples (butlast seg @ [last seg])" by simp
  then show ?thesis by (simp add: loop_samples_def)
qed





subsection \<open>The splash screen phase\<close>

text \<open>
  From power-on, host ticks without input show the splash screen: none of them is a dupe
  (\<open>k\<close> frames are counted against \<open>2064 * k\<close> samples), none runs the core, and after
  180 of them the splash screen is over.
\<close>

lemma splash_state_0: "splash_state 0 script = power_on script"
  by (simp add: splash_state_def power_on_def)

lemma idle_input:
  "update_input_state default_config gambatte_InputGetter released (splash_state k script)
     = splash_state k script"
  by (simp add: update_input_state_def select_a_chord_def select_b_chord_def poll_buttons_def
      btn_map_def released_def filter_opposing_def clear_opposing_def turbo_step_def
      default_config_def splash_state_def Let_def)

lemma unat_of_nat_64: "n < 2 ^ 64 \<Longrightarrow> unat (of_nat n :: 64 word) = n"
  by (subst unat_of_nat) simp

lemma unat_of_nat_32: "n < 2 ^ 32 \<Longrightarrow> unat (of_nat n :: 32 word) = n"
  by (subst unat_of_nat) simp

lemma no_dupe_in_splash:
  assumes "k < 180"
  shows "\<not> (of_nat k :: 64 word) < of_nat (2064 * k) div 35112"
proof -
  have a: "unat (of_nat k :: 64 word) = k" using assms by (intro unat_of_nat_64) simp
  have b: "unat (of_nat (2064 * k) :: 64 word) = 2064 * k"
    using assms by (intro unat_of_nat_64) simp
  have c: "unat (35112 :: 64 word) = 35112" by simp
  have "unat ((of_nat (2064 * k) :: 64 word) div 35112) = 2064 * k div 35112"
    by (simp only: unat_div b c)
  then show ?thesis
    unfolding word_less_nat_alt a by simp
qed

lemma concat_replicate_snoc: "concat (replicate k xs) @ xs = xs @ concat (replicate k xs)"
  by (induction k) simp_all

lemma splash_step:
  assumes "k < 180"
  shows "retro_run default_config gambatte_InputGetter always_released (splash_state k script)
           = Some (splash_state (Suc k) script)"
proof -
  let ?g = "splash_state k script"
  have ff: "sf2000_fastforward_state ?g = 0" by (simp add: splash_state_def)
  have k32: "unat (of_nat k :: 32 word) = k" using assms by (intro unat_of_nat_32) simp
  have t: "(of_nat k :: 32 word) < 180"
    unfolding word_less_nat_alt k32 using assms by simp
  have t': "((180 :: 32 word) \<le> of_nat k + 1) = (180 \<le> Suc k)"
  proof -
    have "unat (of_nat k :: 32 word) + unat (1 :: 32 word) < 2 ^ 32"
      unfolding k32 using assms by simp
    then have "unat (of_nat k + 1 :: 32 word) = unat (of_nat k :: 32 word) + unat (1 :: 32 word)"
      using unat_add_lem [of "of_nat k :: 32 word" 1] by simp
    then have "unat (of_nat k + 1 :: 32 word) = Suc k" unfolding k32 by simp
    then show ?thesis unfolding word_le_nat_alt by simp
  qed
  have nd: "\<not> frames_count ?g < samples_count ?g div SOUND_SAMPLES_PER_FRAME"
    using no_dupe_in_splash [OF assms]
    by (simp only: splash_state_def SOUND_SAMPLES_PER_FRAME_def globals.simps simp_thms)
  have sp: "\<not> sf2000_splash_shown ?g \<and> sf2000_splash_timer ?g < SF2000_SPLASH_DURATION"
    using assms t by (simp add: splash_state_def SF2000_SPLASH_DURATION_def)
  have em: "emulate default_config ?g = Some (SOUND_SAMPLES_PER_RUN, splash_tick ?g)"
    using sp by (simp add: emulate_def Let_def)
  have tick: "splash_tick ?g
      = ?g\<lparr>sf2000_splash_timer := of_nat k + 1, sf2000_splash_shown := (180 \<le> Suc k)\<rparr>"
    using t' assms by (simp add: splash_tick_def Let_def SF2000_SPLASH_DURATION_def splash_state_def)
  have fin: "finish_frame default_config SOUND_SAMPLES_PER_RUN
               (?g\<lparr>sf2000_splash_timer := of_nat k + 1, sf2000_splash_shown := (180 \<le> Suc k)\<rparr>)
             = splash_state (Suc k) script"
    by (simp add: finish_frame_def video_cb_def splash_state_def default_config_def Let_def
        SOUND_SAMPLES_PER_RUN_def VIDEO_WIDTH_def VIDEO_HEIGHT_def VIDEO_PITCH_def
        sizeof_video_pixel_t_def replicate_append_same concat_replicate_snoc)
  have "retro_run_internal default_config gambatte_InputGetter released ?g
          = Some (finish_frame default_config SOUND_SAMPLES_PER_RUN (splash_tick ?g))"
    unfolding retro_run_internal_def idle_input Let_def using nd by (simp add: em)
  then have "retro_run_internal default_config gambatte_InputGetter released ?g
          = Some (splash_state (Suc k) script)"
    unfolding tick fin .
  then show ?thesis
    unfolding retro_run_def ff by (simp add: always_released_def)
qed

lemma splash_steps:
  "k + n \<le> 180 \<Longrightarrow>
   retro_run_ticks default_config gambatte_InputGetter (replicate n always_released) (splash_state k script)
     = Some (splash_state (k + n) script)"
proof (induction n arbitrary: k)
  case 0
  then show ?case by simp
next
  case (Suc n)
  have "k < 180" using Suc.prems by simp
  from splash_step [OF this, of script] Suc.IH [of "Suc k"] Suc.prems
  show ?case by simp
qed

lemma splash_phase:
  "retro_run_ticks default_config gambatte_InputGetter (replicate 180 always_released) (power_on script)
     = Some (splash_state 180 script)"
  using splash_steps [of 0 180 script] by (simp add: splash_state_0)

lemma splash_phase_vars:
  "map_option (\<lambda>g. g\<lparr>video_out := [], audio_events := []\<rparr>)
     (retro_run_ticks default_config gambatte_InputGetter (replicate 180 always_released) (power_on script))
   = Some (splash_over script)"
  unfolding splash_phase by (simp add: splash_state_def splash_over_def power_on_def)

subsection \<open>Claim C1: the dupe pass\<close>

text \<open>
  Claim C1, as the code has it. On every pass of \<^verbatim>\<open>retro_run_internal\<close> that finds
  \<open>frames_count < samples_count div 35112\<close> at entry, the pipeline delivers the \<^verbatim>\<open>NULL\<close>
  frame reference with the normal width, height and pitch, increments \<open>frames_count\<close> by
  exactly 1 whatever the speed state, and returns without any \<^verbatim>\<open>GB::runFor\<close> call and
  without touching \<open>samples_count\<close>, the resampler or the audio output buffer. At normal
  speed a host tick is exactly one such pass.
\<close>

theorem retro_run_internal_dupe:
  assumes "frames_count g < samples_count g div SOUND_SAMPLES_PER_FRAME"
  shows "(\<exists>g'. retro_run_internal cfg gb pad g = Some g' \<and>
            video_out g' = video_out g @
               [Video_refresh NULL_frame VIDEO_WIDTH VIDEO_HEIGHT (VIDEO_PITCH * sizeof_video_pixel_t)] \<and>
            frames_count g' = frames_count g + 1 \<and>
            samples_count g' = samples_count g \<and>
            audio_events g' = audio_events g \<and>
            runfor_log g' = runfor_log g \<and>
            core_script g' = core_script g \<and>
            frames_completed g' = frames_completed g)
         \<and> (sf2000_fastforward_state g = 0 \<longrightarrow>
               retro_run cfg gb pads g = retro_run_internal cfg gb (pads 0) g)"
  using assms by (simp add: retro_run_internal_def retro_run_def video_cb_def Let_def)

text \<open>A pass at normal speed with one frame's worth of samples and no frame counted yet.\<close>

theorem retro_run_internal_dupe_witness:
  "frames_count ((after_splash [])\<lparr>samples_count := 35112\<rparr>)
     < samples_count ((after_splash [])\<lparr>samples_count := 35112\<rparr>) div SOUND_SAMPLES_PER_FRAME
   \<and> (\<exists>g'. retro_run_internal default_config gambatte_InputGetter released
               ((after_splash [])\<lparr>samples_count := 35112\<rparr>) = Some g' \<and>
            video_out g' = [Video_refresh NULL_frame 160 144 512] \<and>
            frames_count g' = 1 \<and> samples_count g' = 35112 \<and> audio_events g' = [] \<and>
            runfor_log g' = [])
   \<and> retro_run default_config gambatte_InputGetter always_released
         ((after_splash [])\<lparr>samples_count := 35112\<rparr>)
       = retro_run_internal default_config gambatte_InputGetter (always_released 0)
         ((after_splash [])\<lparr>samples_count := 35112\<rparr>)"
proof -
  let ?G = "(after_splash [])\<lparr>samples_count := 35112\<rparr>"
  have h: "frames_count ?G < samples_count ?G div SOUND_SAMPLES_PER_FRAME"
    by (simp add: after_splash_def power_on_def SOUND_SAMPLES_PER_FRAME_def)
  have v: "video_out ?G = []" "frames_count ?G = 0" "samples_count ?G = 35112"
    "audio_events ?G = []" "runfor_log ?G = []" "sf2000_fastforward_state ?G = 0"
    by (simp_all add: after_splash_def power_on_def)
  have c: "VIDEO_WIDTH = 160" "VIDEO_HEIGHT = 144" "VIDEO_PITCH * sizeof_video_pixel_t = 512"
    by (simp_all add: VIDEO_WIDTH_def VIDEO_HEIGHT_def VIDEO_PITCH_def sizeof_video_pixel_t_def)
  from retro_run_internal_dupe [OF h, of default_config gambatte_InputGetter released always_released]
  have "(\<exists>g'. retro_run_internal default_config gambatte_InputGetter released ?G = Some g' \<and>
            video_out g' = [Video_refresh NULL_frame 160 144 512] \<and>
            frames_count g' = 1 \<and> samples_count g' = 35112 \<and> audio_events g' = [] \<and>
            runfor_log g' = [])"
    and "retro_run default_config gambatte_InputGetter always_released ?G
       = retro_run_internal default_config gambatte_InputGetter (always_released 0) ?G"
    unfolding v c by auto
  then show ?thesis using h by blast
qed

text \<open>
  Claim C1 as stated fails in fast-forward. In state 1 the multiplier in effect is 3, but the
  dupe pass moves \<open>frames_count\<close> from 0 to 1, not to 3; and the host tick that starts with
  this dupe goes on to run the emulation core in its two remaining passes (six frames).
\<close>

theorem dupe_increment_counterexample:
  "map_option sf2000_fastforward_state
     (retro_run_internal default_config gambatte_InputGetter released
        ((after_splash [])\<lparr>sf2000_fastforward_state := 1, samples_count := 35112\<rparr>)) = Some 1
   \<and> map_option frames_count
     (retro_run_internal default_config gambatte_InputGetter released
        ((after_splash [])\<lparr>sf2000_fastforward_state := 1, samples_count := 35112\<rparr>)) = Some 1
   \<and> map_option frames_count
     (retro_run_internal default_config gambatte_InputGetter released
        ((after_splash [])\<lparr>sf2000_fastforward_state := 1, samples_count := 35112\<rparr>)) \<noteq> Some (0 + 3)
   \<and> map_option frames_completed
     (retro_run default_config gambatte_InputGetter always_released
        ((after_splash (concat (replicate 6 (frame_script 17 24))))
           \<lparr>sf2000_fastforward_state := 1, samples_count := 35112\<rparr>)) = Some 6"
  by code_simp

subsection \<open>Claim C2: emulation steps in fast-forward\<close>

text \<open>
  One pass of \<^verbatim>\<open>retro_run_internal\<close> in fast-forward state 1 or 2 that is not a dupe and
  comes after the splash screen runs \<open>m\<close> emulation steps (completed \<^verbatim>\<open>GB::runFor\<close>
  frames) and adds \<open>m\<close> to \<open>frames_count\<close>, with \<open>m = 3\<close> in state 1 and \<open>m = 5\<close>
  in state 2, provided the core completes \<open>m\<close> frames.
\<close>

lemma fastforward_pass:
  assumes ff: "sf2000_fastforward_state (update_input_state cfg gb pad g) = 1
               \<or> sf2000_fastforward_state (update_input_state cfg gb pad g) = 2"
    and splash: "sf2000_splash_shown g \<or> \<not> sf2000_splash_timer g < SF2000_SPLASH_DURATION"
    and nodupe: "\<not> frames_count g < samples_count g div SOUND_SAMPLES_PER_FRAME"
    and segs: "\<forall>seg \<in> set segs. frame_segment seg"
    and len: "length segs = fastforward_iterations (sf2000_fastforward_state (update_input_state cfg gb pad g))"
    and script: "core_script g = concat segs @ rest"
  shows "\<exists>g'. retro_run_internal cfg gb pad g = Some g' \<and>
           frames_completed g' = frames_completed g + (if sf2000_fastforward_state g' = 1 then 3 else 5) \<and>
           frames_count g' = frames_count g + (if sf2000_fastforward_state g' = 1 then 3 else 5) \<and>
           sf2000_fastforward_state g' = sf2000_fastforward_state (update_input_state cfg gb pad g) \<and>
           core_script g' = rest \<and>
           video_out g' = video_out g @
               [Video_refresh Video_buf VIDEO_WIDTH VIDEO_HEIGHT (VIDEO_PITCH * sizeof_video_pixel_t)]"
proof -
  let ?g = "update_input_state cfg gb pad g"
  let ?m = "fastforward_iterations (sf2000_fastforward_state ?g)"
  have pos: "sf2000_fastforward_state ?g > 0" using ff by auto
  have cs: "core_script ?g = concat segs @ rest" using script by simp
  have l: "0 + length segs = ?m" using len by simp
  from fastforward_loop_segments [OF segs cs l, of cfg SOUND_SAMPLES_PER_RUN] obtain n sc log where
    r: "fastforward_loop cfg 0 ?m SOUND_SAMPLES_PER_RUN ?g =
         Some (n, ?g\<lparr>samples_count := sc, core_script := rest, runfor_log := log,
                      frames_completed := frames_completed ?g + length segs\<rparr>)"
    by blast
  have em: "emulate cfg ?g = Some (n, ?g\<lparr>samples_count := sc, core_script := rest, runfor_log := log,
                      frames_completed := frames_completed ?g + length segs\<rparr>)"
    using splash pos r by (auto simp add: emulate_def Let_def)
  have m: "?m = (if sf2000_fastforward_state ?g = 1 then 3 else 5)"
    by (simp add: fastforward_iterations_def)
  show ?thesis
    using nodupe pos ff
    by (auto simp add: retro_run_internal_def Let_def em finish_frame_def video_cb_def len m)
qed

text \<open>
  Claim C2. The code does not do what the claim says, nor what its own comments say. After
  power-on and the 180 ticks of the splash screen, a host tick with SELECT+A held enters
  fast-forward state 1 (that tick is one pass and runs 3 frames). On the next host tick, with
  no button held and state 1 in effect from entry to exit, \<^verbatim>\<open>retro_run\<close> repeats
  \<^verbatim>\<open>retro_run_internal\<close> three times and every pass runs three frames: the tick completes
  9 emulation steps (3 before it, 12 after) and adds 9 to \<open>frames_count\<close> (183 before,
  192 after), where the claim says 2 and 2 and the comments on the state say 3x.
  \<open>samples_count\<close> advances by 315864 over these 9 frames, 144 less than 9 frames of 35112
  samples: of the three frames of a pass, only the last has the samples of its completing
  \<^verbatim>\<open>GB::runFor\<close> call counted. The core answers with regular frames of 35112 samples.
\<close>

theorem fastforward_tick_runs_nine_steps:
  "map_option (\<lambda>g. g\<lparr>video_out := [], audio_events := []\<rparr>)
     (retro_run_ticks default_config gambatte_InputGetter (replicate 180 always_released)
        (power_on (regular_frames 12)))
     = Some (splash_over (regular_frames 12))
   \<and> map_option (\<lambda>g. (sf2000_fastforward_state g, frames_completed g, frames_count g, samples_count g))
       (retro_run default_config gambatte_InputGetter hold_select_a (splash_over (regular_frames 12)))
     = Some (1, 3, 183, 476808)
   \<and> map_option (\<lambda>g. (sf2000_fastforward_state g, frames_completed g, frames_count g, samples_count g))
       (retro_run_ticks default_config gambatte_InputGetter [hold_select_a, always_released]
          (splash_over (regular_frames 12)))
     = Some (1, 12, 192, 792672)"
proof -
  have "map_option (\<lambda>g. (sf2000_fastforward_state g, frames_completed g, frames_count g, samples_count g))
       (retro_run default_config gambatte_InputGetter hold_select_a (splash_over (regular_frames 12)))
     = Some (1, 3, 183, 476808)"
    by code_simp
  moreover have "map_option (\<lambda>g. (sf2000_fastforward_state g, frames_completed g, frames_count g, samples_count g))
       (retro_run_ticks default_config gambatte_InputGetter [hold_select_a, always_released]
          (splash_over (regular_frames 12)))
     = Some (1, 12, 192, 792672)"
    by code_simp
  ultimately show ?thesis using splash_phase_vars [of "regular_frames 12"] by simp
qed

subsection \<open>Claim C3: the pacing scenario\<close>



subsection \<open>Claim C6: the speed state machine\<close>

text \<open>
  One step of the cycle \<open>0 \<rightarrow> 1 \<rightarrow> 2 \<rightarrow> 0\<close>, and what input handling does to the speed state
  on a pass without a rising edge of the slow-motion chord.
\<close>

lemma ff_next:
  fixes s :: "32 word"
  assumes "s < 3"
  shows "unat ((s + 1) mod 3) = (unat s + 1) mod 3" and "(s + 1) mod 3 < 3"
proof -
  have u: "unat s < 3" using assms by (simp add: word_less_nat_alt)
  then have "unat s + unat (1 :: 32 word) < 2 ^ 32" by simp
  then have "unat (s + 1) = unat s + 1" using unat_add_lem [of s 1] by simp
  then show "unat ((s + 1) mod 3) = (unat s + 1) mod 3" by (simp add: unat_mod)
  then show "(s + 1) mod 3 < 3" by (simp add: word_less_nat_alt)
qed

lemma update_input_state_speed:
  assumes "\<not> (select_b_level pad \<and> \<not> sf2000_select_b_prev g)"
  shows "sf2000_fastforward_state (update_input_state cfg gb pad g) =
           (if select_a_level pad \<and> \<not> sf2000_select_a_prev g
            then (sf2000_fastforward_state g + 1) mod 3 else sf2000_fastforward_state g)"
    and "sf2000_select_a_prev (update_input_state cfg gb pad g) = select_a_level pad"
    and "sf2000_select_b_prev (update_input_state cfg gb pad g) = select_b_level pad"
  using assms
  by (auto simp add: update_input_state_def select_a_chord_def select_b_chord_def
      select_a_level_def select_b_level_def set_fastforward_override_def Let_def)

text \<open>
  Claim C6, as the code has it. Over any sequence of passes in which the slow-motion chord
  SELECT+B has no rising edge, the fast-forward state advances by one step of the cycle
  Normal, FastForward(1), FastForward(2), Normal for each rising edge of the chord SELECT+A and
  does not change otherwise: its value is the start value plus the number of rising edges,
  modulo 3. So three edges lead from Normal back to Normal, and holding the chord causes no
  further transition. A rising edge of SELECT+B, in turn, always leaves the fast-forward
  state at Normal.
\<close>

theorem fastforward_cycle:
  assumes "sf2000_fastforward_state g < 3"
    and "rising_edges (sf2000_select_b_prev g) (map select_b_level pads) = 0"
  shows "unat (sf2000_fastforward_state (run_inputs cfg gb pads g)) =
           (unat (sf2000_fastforward_state g)
             + rising_edges (sf2000_select_a_prev g) (map select_a_level pads)) mod 3
         \<and> (select_b_level pad \<and> \<not> sf2000_select_b_prev g \<longrightarrow>
              sf2000_fastforward_state (update_input_state cfg gb pad g) = 0)"
proof -
  have cycle: "unat (sf2000_fastforward_state (run_inputs cfg gb pads s)) =
           (unat (sf2000_fastforward_state s)
             + rising_edges (sf2000_select_a_prev s) (map select_a_level pads)) mod 3"
    if "sf2000_fastforward_state s < 3"
      and "rising_edges (sf2000_select_b_prev s) (map select_b_level pads) = 0" for s
    using that
  proof (induction pads arbitrary: s)
    case Nil
    then show ?case by (simp add: run_inputs_def word_less_nat_alt)
  next
    case (Cons p pads)
    let ?s1 = "update_input_state cfg gb p s"
    have nb: "\<not> (select_b_level p \<and> \<not> sf2000_select_b_prev s)"
      and rest: "rising_edges (select_b_level p) (map select_b_level pads) = 0"
      using Cons.prems(2) by (auto split: if_splits)
    note st = update_input_state_speed [OF nb, of cfg gb]
    have lt: "sf2000_fastforward_state ?s1 < 3"
      using Cons.prems(1) ff_next(2) [OF Cons.prems(1)] by (simp add: st(1))
    have rest': "rising_edges (sf2000_select_b_prev ?s1) (map select_b_level pads) = 0"
      using rest by (simp add: st(3))
    have ih: "unat (sf2000_fastforward_state (run_inputs cfg gb pads ?s1)) =
        (unat (sf2000_fastforward_state ?s1) + rising_edges (select_a_level p) (map select_a_level pads)) mod 3"
      using Cons.IH [OF lt rest'] by (simp add: st(2))
    have unf: "run_inputs cfg gb (p # pads) s = run_inputs cfg gb pads ?s1"
      by (simp add: run_inputs_def)
    show ?case
    proof (cases "select_a_level p \<and> \<not> sf2000_select_a_prev s")
      case True
      have "unat (sf2000_fastforward_state ?s1) = (unat (sf2000_fastforward_state s) + 1) mod 3"
        using True ff_next(1) [OF Cons.prems(1)] by (simp add: st(1))
      then show ?thesis unfolding unf ih using True
        by (simp add: mod_add_left_eq add.assoc)
    next
      case False
      then have "sf2000_fastforward_state ?s1 = sf2000_fastforward_state s"
        unfolding st(1) by auto
      then show ?thesis unfolding unf ih using False by auto
    qed
  qed
  have reset: "select_b_level pad \<and> \<not> sf2000_select_b_prev g \<longrightarrow>
      sf2000_fastforward_state (update_input_state cfg gb pad g) = 0"
    by (auto simp add: update_input_state_def select_a_chord_def select_b_chord_def
        select_b_level_def set_fastforward_override_def Let_def)
  show ?thesis using cycle [OF assms] reset by blast
qed

text \<open>
  From power-on: one edge gives state 1; holding the chord for three passes still gives 1;
  a second edge gives 2 and holding keeps it; the third edge returns to 0. A rising edge of
  SELECT+B in state 2 gives 0.
\<close>

theorem fastforward_cycle_witness:
  "sf2000_fastforward_state (power_on []) < 3
   \<and> rising_edges (sf2000_select_b_prev (power_on []))
        (map select_b_level [chord_select_a, released, chord_select_a, chord_select_a, released, chord_select_a]) = 0
   \<and> unat (sf2000_fastforward_state (run_inputs default_config gambatte_InputGetter
        [chord_select_a] (power_on []))) = 1
   \<and> unat (sf2000_fastforward_state (run_inputs default_config gambatte_InputGetter
        [chord_select_a, chord_select_a, chord_select_a] (power_on []))) = 1
   \<and> unat (sf2000_fastforward_state (run_inputs default_config gambatte_InputGetter
        [chord_select_a, released, chord_select_a, chord_select_a] (power_on []))) = 2
   \<and> unat (sf2000_fastforward_state (run_inputs default_config gambatte_InputGetter
        [chord_select_a, released, chord_select_a, chord_select_a, released, chord_select_a] (power_on []))) = 0
   \<and> select_b_level chord_select_a_b
   \<and> sf2000_fastforward_state (update_input_state default_config gambatte_InputGetter chord_select_a_b
        ((power_on [])\<lparr>sf2000_fastforward_state := 2\<rparr>)) = 0"
proof -
  have lt: "sf2000_fastforward_state (power_on []) < 3" by (simp add: power_on_def)
  have b: "rising_edges (sf2000_select_b_prev (power_on [])) (map select_b_level pads) = 0"
    if "set pads \<subseteq> {chord_select_a, released}" for pads
    using that
    by (induction pads arbitrary: )
       (auto simp add: select_b_level_def chord_select_a_def released_def power_on_def)
  have z: "unat (sf2000_fastforward_state (power_on [])) = 0"
    "sf2000_select_a_prev (power_on []) = False"
    by (simp_all add: power_on_def)
  have l: "select_a_level chord_select_a" "\<not> select_a_level released"
    by (simp_all add: select_a_level_def chord_select_a_def released_def)
  note c = fastforward_cycle [OF lt b, of _ default_config gambatte_InputGetter,
      THEN conjunct1, unfolded z]
  have "unat (sf2000_fastforward_state (run_inputs default_config gambatte_InputGetter
        [chord_select_a] (power_on []))) = 1"
    by (subst c) (simp_all add: l)
  moreover have "unat (sf2000_fastforward_state (run_inputs default_config gambatte_InputGetter
        [chord_select_a, chord_select_a, chord_select_a] (power_on []))) = 1"
    by (subst c) (simp_all add: l)
  moreover have "unat (sf2000_fastforward_state (run_inputs default_config gambatte_InputGetter
        [chord_select_a, released, chord_select_a, chord_select_a] (power_on []))) = 2"
    by (subst c) (simp_all add: l)
  moreover have "unat (sf2000_fastforward_state (run_inputs default_config gambatte_InputGetter
        [chord_select_a, released, chord_select_a, chord_select_a, released, chord_select_a] (power_on []))) = 0"
    by (subst c) (simp_all add: l)
  moreover have "rising_edges (sf2000_select_b_prev (power_on []))
        (map select_b_level [chord_select_a, released, chord_select_a, chord_select_a, released, chord_select_a]) = 0"
    by (rule b) simp
  moreover have "select_b_level chord_select_a_b"
    by (simp add: select_b_level_def chord_select_a_b_def)
  moreover have "sf2000_fastforward_state (update_input_state default_config gambatte_InputGetter
        chord_select_a_b ((power_on [])\<lparr>sf2000_fastforward_state := 2\<rparr>)) = 0"
  proof -
    let ?G = "(power_on [])\<lparr>sf2000_fastforward_state := 2\<rparr>"
    have a: "sf2000_fastforward_state ?G < 3" by simp
    have e: "rising_edges (sf2000_select_b_prev ?G) (map select_b_level []) = 0" by simp
    have l: "select_b_level chord_select_a_b \<and> \<not> sf2000_select_b_prev ?G"
      by (simp add: select_b_level_def chord_select_a_b_def power_on_def)
    from fastforward_cycle [OF a e, of default_config gambatte_InputGetter chord_select_a_b] l
    show ?thesis by blast
  qed
  ultimately show ?thesis using lt by blast
qed

text \<open>
  Claim C6 as stated fails when the slow-motion chord rises in the same pass. From Normal,
  pressing SELECT, A and B together is a rising edge of SELECT+A, yet the fast-forward state
  ends at 0 (and slow motion at 1): the SELECT+B block resets it. Likewise, with SELECT+A
  held in state 1 (no new edge), pressing B takes the fast-forward state to 0.
\<close>

theorem chord_with_slowmotion_counterexample:
  "sf2000_fastforward_state (power_on []) = 0
   \<and> select_a_level chord_select_a_b \<and> \<not> sf2000_select_a_prev (power_on [])
   \<and> sf2000_fastforward_state
       (update_input_state default_config gambatte_InputGetter chord_select_a_b (power_on [])) = 0
   \<and> sf2000_slowmotion_state
       (update_input_state default_config gambatte_InputGetter chord_select_a_b (power_on [])) = 1
   \<and> sf2000_fastforward_state
       (update_input_state default_config gambatte_InputGetter chord_select_a_b
          ((power_on [])\<lparr>sf2000_fastforward_state := 1, sf2000_select_a_prev := True\<rparr>)) = 0"
  by code_simp

subsection \<open>Claim C10: no opposing directions\<close>

text \<open>Bit-level facts about clearing a pair of masks and adding a disjoint one.\<close>

lemma and_clear_self: "(x AND NOT (u OR d)) AND u = (0 :: 32 word)"
  "(x AND NOT (u OR d)) AND d = (0 :: 32 word)"
  by (rule bit_eqI; auto simp add: bit_simps)+

lemma and_clear_mono: "x AND u = (0 :: 32 word) \<Longrightarrow> (x AND NOT m) AND u = 0"
proof -
  assume a: "x AND u = 0"
  have "(x AND NOT m) AND u = (x AND u) AND NOT m"
    by (rule bit_eqI) (auto simp add: bit_simps)
  then show ?thesis using a by simp
qed

lemma or_disjoint: "a AND u = (0 :: 32 word) \<Longrightarrow> (x OR a) AND u = x AND u"
proof -
  assume a: "a AND u = 0"
  have "(x OR a) AND u = (x AND u) OR (a AND u)"
    by (rule bit_eqI) (auto simp add: bit_simps)
  then show ?thesis using a by simp
qed

lemma clear_opposing_self: "\<not> (clear_opposing u d x AND u \<noteq> 0 \<and> clear_opposing u d x AND d \<noteq> 0)"
  unfolding clear_opposing_def using and_clear_self [of x u d] by (cases "x AND u = 0"; cases "x AND d = 0") simp_all

lemma clear_opposing_mono: "x AND v = 0 \<Longrightarrow> clear_opposing u d x AND v = 0"
  unfolding clear_opposing_def using and_clear_mono [of x v "u OR d"]
  by (cases "x AND u = 0"; cases "x AND d = 0") simp_all

lemma filter_opposing_props:
  "\<not> (filter_opposing gb res AND gb UP \<noteq> 0 \<and> filter_opposing gb res AND gb DOWN \<noteq> 0)"
  "\<not> (filter_opposing gb res AND gb LEFT \<noteq> 0 \<and> filter_opposing gb res AND gb RIGHT \<noteq> 0)"
proof -
  let ?r1 = "clear_opposing (gb UP) (gb DOWN) res"
  show "\<not> (filter_opposing gb res AND gb LEFT \<noteq> 0 \<and> filter_opposing gb res AND gb RIGHT \<noteq> 0)"
    unfolding filter_opposing_def by (rule clear_opposing_self)
  have "?r1 AND gb UP = 0 \<or> ?r1 AND gb DOWN = 0"
    using clear_opposing_self [of "gb UP" "gb DOWN" res] by blast
  then have "clear_opposing (gb LEFT) (gb RIGHT) ?r1 AND gb UP = 0
      \<or> clear_opposing (gb LEFT) (gb RIGHT) ?r1 AND gb DOWN = 0"
    using clear_opposing_mono by blast
  then show "\<not> (filter_opposing gb res AND gb UP \<noteq> 0 \<and> filter_opposing gb res AND gb DOWN \<noteq> 0)"
    unfolding filter_opposing_def by blast
qed

lemma turbo_step_disjoint:
  assumes "button AND u = 0"
  shows "fst (turbo_step cfg turbo button counter res) AND u = res AND u"
  using assms by (simp add: turbo_step_def Let_def or_disjoint)

lemma libretro_input_state_eq:
  "libretro_input_state (update_input_state cfg gb pad g) =
     fst (turbo_step cfg (pad JOYPAD_Y) (gb B)
            (turbo_b_counter (select_b_chord pad (select_a_chord pad g)))
            (fst (turbo_step cfg (pad JOYPAD_X) (gb A)
                    (turbo_a_counter (select_b_chord pad (select_a_chord pad g)))
                    (if \<not> up_down_allowed cfg then filter_opposing gb (poll_buttons gb pad)
                     else poll_buttons gb pad))))"
  by (simp add: update_input_state_def Let_def)

text \<open>
  Claim C10. Whenever \<^verbatim>\<open>up_down_allowed\<close> is false, the input state that
  \<^verbatim>\<open>update_input_state\<close> stores for the emulation core never has both UP and DOWN set,
  nor both LEFT and RIGHT. The button masks are a parameter; the turbo buttons add the A and B
  masks after the filter, so these must not share a bit with a direction mask (they do not in
  Gambatte, where every button is one bit).
\<close>

theorem no_opposing_directions:
  assumes "\<not> up_down_allowed cfg"
    and "gb A AND gb UP = 0" "gb A AND gb DOWN = 0" "gb A AND gb LEFT = 0" "gb A AND gb RIGHT = 0"
    and "gb B AND gb UP = 0" "gb B AND gb DOWN = 0" "gb B AND gb LEFT = 0" "gb B AND gb RIGHT = 0"
  shows "\<not> (libretro_input_state (update_input_state cfg gb pad g) AND gb UP \<noteq> 0
            \<and> libretro_input_state (update_input_state cfg gb pad g) AND gb DOWN \<noteq> 0)
         \<and> \<not> (libretro_input_state (update_input_state cfg gb pad g) AND gb LEFT \<noteq> 0
            \<and> libretro_input_state (update_input_state cfg gb pad g) AND gb RIGHT \<noteq> 0)"
proof -
  let ?f = "filter_opposing gb (poll_buttons gb pad)"
  let ?r = "libretro_input_state (update_input_state cfg gb pad g)"
  have e: "?r AND u = ?f AND u" if "gb A AND u = 0" "gb B AND u = 0" for u
    unfolding libretro_input_state_eq using assms(1) that
    by (simp add: turbo_step_disjoint)
  have "?r AND gb UP = ?f AND gb UP" "?r AND gb DOWN = ?f AND gb DOWN"
    "?r AND gb LEFT = ?f AND gb LEFT" "?r AND gb RIGHT = ?f AND gb RIGHT"
    using assms by (simp_all add: e)
  then show ?thesis using filter_opposing_props [of gb "poll_buttons gb pad"] by simp
qed

text \<open>
  All four directions and turbo A pressed at once, with Gambatte's masks: the four direction
  bits are cleared and only A remains.
\<close>

theorem no_opposing_directions_witness:
  "\<not> up_down_allowed default_config
   \<and> gambatte_InputGetter A AND gambatte_InputGetter UP = 0
   \<and> gambatte_InputGetter B AND gambatte_InputGetter RIGHT = 0
   \<and> poll_buttons gambatte_InputGetter all_directions = 0xF0
   \<and> libretro_input_state (update_input_state default_config gambatte_InputGetter all_directions (power_on [])) = 1
   \<and> \<not> (libretro_input_state (update_input_state default_config gambatte_InputGetter all_directions (power_on []))
             AND gambatte_InputGetter UP \<noteq> 0
          \<and> libretro_input_state (update_input_state default_config gambatte_InputGetter all_directions (power_on []))
             AND gambatte_InputGetter DOWN \<noteq> 0)
   \<and> \<not> (libretro_input_state (update_input_state default_config gambatte_InputGetter all_directions (power_on []))
             AND gambatte_InputGetter LEFT \<noteq> 0
          \<and> libretro_input_state (update_input_state default_config gambatte_InputGetter all_directions (power_on []))
             AND gambatte_InputGetter RIGHT \<noteq> 0)"
proof -
  have h: "\<not> up_down_allowed default_config" by (simp add: default_config_def)
  have m: "gambatte_InputGetter A AND gambatte_InputGetter UP = 0"
    "gambatte_InputGetter A AND gambatte_InputGetter DOWN = 0"
    "gambatte_InputGetter A AND gambatte_InputGetter LEFT = 0"
    "gambatte_InputGetter A AND gambatte_InputGetter RIGHT = 0"
    "gambatte_InputGetter B AND gambatte_InputGetter UP = 0"
    "gambatte_InputGetter B AND gambatte_InputGetter DOWN = 0"
    "gambatte_InputGetter B AND gambatte_InputGetter LEFT = 0"
    "gambatte_InputGetter B AND gambatte_InputGetter RIGHT = 0"
    by (simp_all add: gambatte_InputGetter_def)
  have p: "poll_buttons gambatte_InputGetter all_directions = 0xF0" by code_simp
  have r: "libretro_input_state (update_input_state default_config gambatte_InputGetter all_directions (power_on [])) = 1"
    by code_simp
  from no_opposing_directions [OF h m, of all_directions "power_on []"]
  show ?thesis using h m(1,8) p r by blast
qed

subsection \<open>Claim C7: the mix filter\<close>

text \<open>
  Mixing a pixel with itself gives the pixel. The two loops of \<^verbatim>\<open>blend_frames_mix\<close> change
  exactly the visible pixels (column below \<^verbatim>\<open>VIDEO_WIDTH\<close> in each row of
  \<^verbatim>\<open>VIDEO_PITCH\<close> cells): the current buffer gets the mix, the previous buffer the
  unblended current pixel.
\<close>

lemma mix_same: "mix_rgb565 c c = c"
proof -
  let ?x = "ucast c :: 32 word"
  have lt: "unat c < 2 ^ 16" using unsigned_less [of c] by simp
  have ux: "unat ?x = unat c"
    using lt by (simp add: unsigned_ucast_eq take_bit_eq_mod)
  have s: "unat (?x + ?x) = 2 * unat c"
    using unat_add_lem [of ?x ?x] ux lt by simp
  have d: "unat (drop_bit 1 (?x + ?x)) = unat c"
    unfolding u_shr1 s by simp
  have "unat (ucast (drop_bit 1 (?x + ?x)) :: 16 word) = unat c"
    using lt by (simp only: unsigned_ucast_eq d) (simp add: take_bit_eq_mod)
  then have "(ucast (drop_bit 1 (?x + ?x)) :: 16 word) = c"
    by (simp only: word_unat_eq_iff)
  then show ?thesis by (simp add: mix_rgb565_def)
qed

lemma blend_mix_row_nth:
  assumes "length prev_buf = length curr_buf" and "base + VIDEO_WIDTH \<le> length curr_buf"
  shows "length (fst (blend_mix_row base x (curr_buf, prev_buf))) = length curr_buf
       \<and> length (snd (blend_mix_row base x (curr_buf, prev_buf))) = length curr_buf
       \<and> (\<forall>i<length curr_buf.
            fst (blend_mix_row base x (curr_buf, prev_buf)) ! i =
              (if base + x \<le> i \<and> i < base + VIDEO_WIDTH
               then mix_rgb565 (curr_buf ! i) (prev_buf ! i) else curr_buf ! i)
          \<and> snd (blend_mix_row base x (curr_buf, prev_buf)) ! i =
              (if base + x \<le> i \<and> i < base + VIDEO_WIDTH then curr_buf ! i else prev_buf ! i))"
  using assms
proof (induction base x "(curr_buf, prev_buf)" arbitrary: curr_buf prev_buf rule: blend_mix_row.induct)
  case (1 base x curr_buf prev_buf)
  show ?case
  proof (cases "x < VIDEO_WIDTH")
    case False
    have unf: "blend_mix_row base x (curr_buf, prev_buf) = (curr_buf, prev_buf)"
      using False by (subst blend_mix_row.simps) simp
    show ?thesis unfolding unf using False "1.prems" by auto
  next
    case True
    let ?c1 = "curr_buf[base + x := mix_rgb565 (curr_buf ! (base + x)) (prev_buf ! (base + x))]"
    let ?p1 = "prev_buf[base + x := curr_buf ! (base + x)]"
    have unf: "blend_mix_row base x (curr_buf, prev_buf) = blend_mix_row base (x + 1) (?c1, ?p1)"
      using True by (subst blend_mix_row.simps) (simp add: Let_def)
    have l: "length ?p1 = length ?c1" "base + VIDEO_WIDTH \<le> length ?c1"
      using "1.prems" by simp_all
    note ih = "1.hyps" [OF True refl refl refl refl l]
    have in_range: "base + x < length curr_buf" using True "1.prems"(2) by simp
    show ?thesis
      unfolding unf using ih in_range "1.prems"(1) True
      by (auto simp add: nth_list_update)
  qed
qed

lemma width_le_pitch: "VIDEO_WIDTH \<le> VIDEO_PITCH" and pitch_pos: "0 < VIDEO_PITCH"
  by (simp_all add: VIDEO_WIDTH_def VIDEO_PITCH_def)

lemma row_index:
  assumes "y * VIDEO_PITCH \<le> i" "i < (y + 1) * VIDEO_PITCH"
  shows "i mod VIDEO_PITCH = i - y * VIDEO_PITCH"
proof -
  have "i = (i - y * VIDEO_PITCH) + y * VIDEO_PITCH" using assms(1) by simp
  then have "i mod VIDEO_PITCH = (i - y * VIDEO_PITCH) mod VIDEO_PITCH"
    by (metis mod_mult_self1 mult.commute)
  also have "\<dots> = i - y * VIDEO_PITCH" using assms by simp
  finally show ?thesis .
qed

lemma blend_mix_rows_nth:
  assumes "length prev_buf = length curr_buf" and "length curr_buf = VIDEO_PITCH * VIDEO_HEIGHT"
    and "y \<le> VIDEO_HEIGHT"
  shows "length (fst (blend_mix_rows y (y * VIDEO_PITCH) (curr_buf, prev_buf))) = length curr_buf
       \<and> length (snd (blend_mix_rows y (y * VIDEO_PITCH) (curr_buf, prev_buf))) = length curr_buf
       \<and> (\<forall>i<length curr_buf.
            fst (blend_mix_rows y (y * VIDEO_PITCH) (curr_buf, prev_buf)) ! i =
              (if y * VIDEO_PITCH \<le> i \<and> i mod VIDEO_PITCH < VIDEO_WIDTH
               then mix_rgb565 (curr_buf ! i) (prev_buf ! i) else curr_buf ! i)
          \<and> snd (blend_mix_rows y (y * VIDEO_PITCH) (curr_buf, prev_buf)) ! i =
              (if y * VIDEO_PITCH \<le> i \<and> i mod VIDEO_PITCH < VIDEO_WIDTH
               then curr_buf ! i else prev_buf ! i))"
  using assms
proof (induction "VIDEO_HEIGHT - y" arbitrary: y curr_buf prev_buf)
  case 0
  then have "\<not> y < VIDEO_HEIGHT" by simp
  then have unf: "blend_mix_rows y (y * VIDEO_PITCH) (curr_buf, prev_buf) = (curr_buf, prev_buf)"
    by (subst blend_mix_rows.simps) simp
  have "y = VIDEO_HEIGHT" using 0 by simp
  then have "\<forall>i<length curr_buf. \<not> y * VIDEO_PITCH \<le> i"
    using "0.prems"(2) by (simp add: mult.commute)
  then show ?case unfolding unf using "0.prems"(1) by simp
next
  case (Suc k)
  then have lt: "y < VIDEO_HEIGHT" by simp
  let ?base = "y * VIDEO_PITCH"
  let ?r = "blend_mix_row ?base 0 (curr_buf, prev_buf)"
  have fit: "?base + VIDEO_WIDTH \<le> length curr_buf"
  proof -
    have "?base + VIDEO_WIDTH \<le> (y + 1) * VIDEO_PITCH" using width_le_pitch by simp
    also have "\<dots> \<le> VIDEO_HEIGHT * VIDEO_PITCH" using lt by (intro mult_le_mono1) simp
    finally show ?thesis using Suc.prems(2) by (simp add: mult.commute)
  qed
  note row = blend_mix_row_nth [OF Suc.prems(1) fit, of 0]
  have unf: "blend_mix_rows y ?base (curr_buf, prev_buf)
      = blend_mix_rows (y + 1) ((y + 1) * VIDEO_PITCH) (fst ?r, snd ?r)"
    using lt by (subst blend_mix_rows.simps) (simp add: add.commute)
  have l1: "length (snd ?r) = length (fst ?r)" "length (fst ?r) = VIDEO_PITCH * VIDEO_HEIGHT"
    using row Suc.prems(2) by simp_all
  have k: "k = VIDEO_HEIGHT - (y + 1)" using Suc.hyps(2) by simp
  have y1: "y + 1 \<le> VIDEO_HEIGHT" using lt by simp
  note ih = Suc.hyps(1) [OF k l1 y1]
  have len: "length (fst ?r) = length curr_buf" using row by simp
  have pt: "fst (blend_mix_rows (y + 1) ((y + 1) * VIDEO_PITCH) (fst ?r, snd ?r)) ! i =
              (if ?base \<le> i \<and> i mod VIDEO_PITCH < VIDEO_WIDTH
               then mix_rgb565 (curr_buf ! i) (prev_buf ! i) else curr_buf ! i)
          \<and> snd (blend_mix_rows (y + 1) ((y + 1) * VIDEO_PITCH) (fst ?r, snd ?r)) ! i =
              (if ?base \<le> i \<and> i mod VIDEO_PITCH < VIDEO_WIDTH
               then curr_buf ! i else prev_buf ! i)"
    if i: "i < length curr_buf" for i
  proof -
    have a: "fst (blend_mix_rows (y + 1) ((y + 1) * VIDEO_PITCH) (fst ?r, snd ?r)) ! i =
              (if (y + 1) * VIDEO_PITCH \<le> i \<and> i mod VIDEO_PITCH < VIDEO_WIDTH
               then mix_rgb565 (fst ?r ! i) (snd ?r ! i) else fst ?r ! i)"
      and b: "snd (blend_mix_rows (y + 1) ((y + 1) * VIDEO_PITCH) (fst ?r, snd ?r)) ! i =
              (if (y + 1) * VIDEO_PITCH \<le> i \<and> i mod VIDEO_PITCH < VIDEO_WIDTH
               then fst ?r ! i else snd ?r ! i)"
      using ih i len by simp_all
    have c: "fst ?r ! i = (if ?base \<le> i \<and> i < ?base + VIDEO_WIDTH
               then mix_rgb565 (curr_buf ! i) (prev_buf ! i) else curr_buf ! i)"
      and d: "snd ?r ! i = (if ?base \<le> i \<and> i < ?base + VIDEO_WIDTH then curr_buf ! i else prev_buf ! i)"
      using row i by simp_all
    consider (below) "i < ?base" | (inrow) "?base \<le> i" "i < (y + 1) * VIDEO_PITCH"
      | (above) "(y + 1) * VIDEO_PITCH \<le> i" by linarith
    then show ?thesis
    proof cases
      case below
      then have "\<not> (y + 1) * VIDEO_PITCH \<le> i" by simp
      then show ?thesis unfolding a b c d using below by simp
    next
      case inrow
      have m: "i mod VIDEO_PITCH = i - ?base" by (rule row_index [OF inrow])
      have n: "\<not> (y + 1) * VIDEO_PITCH \<le> i" using inrow(2) by simp
      have e: "(i < ?base + VIDEO_WIDTH) = (i mod VIDEO_PITCH < VIDEO_WIDTH)"
        unfolding m using inrow(1) by linarith
      show ?thesis unfolding a b c d using n inrow(1) e by simp
    next
      case above
      then have f: "?base \<le> i" "\<not> i < ?base + VIDEO_WIDTH"
        using width_le_pitch by simp_all
      show ?thesis unfolding a b c d using above f by simp
    qed
  qed
  show ?case unfolding unf using ih len pt by simp
qed

lemma blend_frames_mix_nth:
  assumes "length prev_buf = length curr_buf" and "length curr_buf = video_buf_pixels"
  shows "length (fst (blend_frames_mix (curr_buf, prev_buf))) = length curr_buf"
    and "length (snd (blend_frames_mix (curr_buf, prev_buf))) = length curr_buf"
    and "i < length curr_buf \<Longrightarrow> fst (blend_frames_mix (curr_buf, prev_buf)) ! i =
              (if i mod VIDEO_PITCH < VIDEO_WIDTH
               then mix_rgb565 (curr_buf ! i) (prev_buf ! i) else curr_buf ! i)"
    and "i < length curr_buf \<Longrightarrow> snd (blend_frames_mix (curr_buf, prev_buf)) ! i =
              (if i mod VIDEO_PITCH < VIDEO_WIDTH then curr_buf ! i else prev_buf ! i)"
  using blend_mix_rows_nth [OF assms(1) assms(2) [unfolded video_buf_pixels_def], of 0]
  by (simp_all add: blend_frames_mix_def)

lemma video_buf_pixels_pos: "0 < video_buf_pixels"
  by (simp add: video_buf_pixels_def VIDEO_PITCH_def VIDEO_HEIGHT_def)

text \<open>
  Claim C7, as the code has it. For every frame \<open>F\<close>, feeding \<open>F\<close> twice in succession
  into the mix filter, starting from a freshly allocated (zeroed) previous-frame buffer,
  yields \<open>F\<close> unchanged as the output of the second application; more generally the output
  is \<open>F\<close> whenever the previous-frame buffer agrees with \<open>F\<close> on the visible pixels.
  The first application blends against the zeroed buffer: each visible pixel \<open>c\<close> becomes
  \<^verbatim>\<open>(c + (c & 0x821)) >> 1\<close>.
\<close>

theorem blend_frames_mix_repeat:
  assumes "length F = video_buf_pixels"
  shows "allocate_video_buf_prev True None = (True, Some (replicate video_buf_pixels 0))
     \<and> fst (blend_frames_mix (F, snd (blend_frames_mix (F, replicate video_buf_pixels 0)))) = F
     \<and> (\<forall>i<video_buf_pixels.
           fst (blend_frames_mix (F, replicate video_buf_pixels 0)) ! i =
             (if i mod VIDEO_PITCH < VIDEO_WIDTH then mix_rgb565 (F ! i) 0 else F ! i))
     \<and> (length P = video_buf_pixels \<and> (\<forall>i<video_buf_pixels. i mod VIDEO_PITCH < VIDEO_WIDTH \<longrightarrow> P ! i = F ! i)
          \<longrightarrow> fst (blend_frames_mix (F, P)) = F)"
proof -
  let ?Z = "replicate video_buf_pixels (0 :: video_pixel_t)"
  have lz: "length ?Z = length F" using assms by simp
  note first = blend_frames_mix_nth [OF lz assms]
  have same: "fst (blend_frames_mix (F, P)) = F"
    if lp: "length P = video_buf_pixels"
      and agree: "\<forall>i<video_buf_pixels. i mod VIDEO_PITCH < VIDEO_WIDTH \<longrightarrow> P ! i = F ! i" for P
  proof (rule nth_equalityI)
    have lp': "length P = length F" using lp assms by simp
    note r = blend_frames_mix_nth [OF lp' assms]
    show "length (fst (blend_frames_mix (F, P))) = length F" by (rule r(1))
    fix i assume "i < length (fst (blend_frames_mix (F, P)))"
    then have i: "i < length F" by (simp add: r(1))
    then have "i < video_buf_pixels" using assms by simp
    then show "fst (blend_frames_mix (F, P)) ! i = F ! i"
      using agree by (simp add: r(3) [OF i] mix_same)
  qed
  let ?P1 = "snd (blend_frames_mix (F, ?Z))"
  have "length ?P1 = video_buf_pixels" using first(2) assms by simp
  moreover have "\<forall>i<video_buf_pixels. i mod VIDEO_PITCH < VIDEO_WIDTH \<longrightarrow> ?P1 ! i = F ! i"
    using first(4) assms by simp
  ultimately have second: "fst (blend_frames_mix (F, ?P1)) = F" by (rule same)
  have one: "\<forall>i<video_buf_pixels.
           fst (blend_frames_mix (F, ?Z)) ! i =
             (if i mod VIDEO_PITCH < VIDEO_WIDTH then mix_rgb565 (F ! i) 0 else F ! i)"
    using first(3) assms by simp
  have alloc: "allocate_video_buf_prev True None = (True, Some ?Z)"
    by (simp add: allocate_video_buf_prev_def)
  show ?thesis using alloc second one same by blast
qed

text \<open>The frame whose pixels all have the value 2.\<close>

theorem blend_frames_mix_repeat_witness:
  "length (replicate video_buf_pixels (2 :: video_pixel_t)) = video_buf_pixels
   \<and> fst (blend_frames_mix (replicate video_buf_pixels 2,
            snd (blend_frames_mix (replicate video_buf_pixels 2, replicate video_buf_pixels 0))))
       = replicate video_buf_pixels 2
   \<and> fst (blend_frames_mix (replicate video_buf_pixels 2, replicate video_buf_pixels 0)) ! 0 = mix_rgb565 2 0
   \<and> fst (blend_frames_mix (replicate video_buf_pixels 2, replicate video_buf_pixels 2))
       = replicate video_buf_pixels 2"
proof -
  have l: "length (replicate video_buf_pixels (2 :: video_pixel_t)) = video_buf_pixels" by simp
  have v: "0 mod VIDEO_PITCH < VIDEO_WIDTH" by (simp add: VIDEO_WIDTH_def)
  from blend_frames_mix_repeat [OF l, of "replicate video_buf_pixels 2"]
  show ?thesis using video_buf_pixels_pos v by auto
qed

text \<open>
  Claim C7 as stated fails for the first application: against the zeroed buffer a pixel of
  value 2 comes out as 1, so the output is not \<open>F\<close>.
\<close>

theorem blend_frames_mix_first_frame_counterexample:
  "snd (allocate_video_buf_prev True None) = Some (replicate video_buf_pixels 0)
   \<and> fst (blend_frames_mix (replicate video_buf_pixels 2, replicate video_buf_pixels 0)) ! 0 = 1
   \<and> fst (blend_frames_mix (replicate video_buf_pixels 2, replicate video_buf_pixels 0))
       \<noteq> replicate video_buf_pixels 2"
proof -
  let ?F = "replicate video_buf_pixels (2 :: video_pixel_t)"
  let ?Z = "replicate video_buf_pixels (0 :: video_pixel_t)"
  have l: "length ?Z = length ?F" "length ?F = video_buf_pixels" by simp_all
  have i: "0 < length ?F" using video_buf_pixels_pos by simp
  have v: "0 mod VIDEO_PITCH < VIDEO_WIDTH" by (simp add: VIDEO_WIDTH_def)
  have m: "mix_rgb565 2 0 = 1" by (simp add: mix_rgb565_def)
  have a: "fst (blend_frames_mix (?F, ?Z)) ! 0 = 1"
    using blend_frames_mix_nth(3) [OF l i] v video_buf_pixels_pos m by simp
  have "?F ! 0 = 2" using video_buf_pixels_pos by simp
  then have b: "fst (blend_frames_mix (?F, ?Z)) \<noteq> ?F" using a by auto
  show ?thesis using a b by (simp add: allocate_video_buf_prev_def)
qed

end
